theory Spec2Isabelle
  imports Complex_Main "HOL-Library.Product_Lexorder"
begin

section \<open>Complex sky maps and full coefficient sets (skymaps.py)\<close>

text \<open>
  The embedding follows \<^verbatim>\<open>src/plotGWB/skymaps.py\<close>, lines 228 to 364: the four functions
  that carry healpy's real-valued harmonic transform over to complex maps, and the two
  wrappers around them.

  Numbers. A harmonic coefficient is an exact complex number or NaN, the value pandas
  puts where a label is missing: \<open>Some z\<close> or \<open>None\<close>. Arithmetic on coefficients is
  exact, so rounding and overflow are outside the model. A pixel component is a float
  with its special values kept apart (\<open>Fin\<close>, \<open>PInf\<close>, \<open>NInf\<close>, \<open>NaN\<close>), because the mask
  is built from them.

  healpy. \<^verbatim>\<open>hp.map2alm\<close>, \<open>hp.alm2map\<close> and \<open>hp.synalm\<close> are not part of the repository; each
  is a parameter of the function that calls it, and may fail. The random generator
  reads and advances numpy's global state, which is passed explicitly (type \<open>'g\<close>).

  pandas. A Series is the list of its (label, value) rows, in order.
\<close>

subsection \<open>Values\<close>

datatype py_error = ValueError | KeyError | IndexingError | AssertionError | HealpyError

datatype npfloat = Fin real | PInf | NInf | NaN

type_synonym pixel = "npfloat \<times> npfloat"

type_synonym cval = "complex option"

type_synonym 'k series = "('k \<times> cval) list"

type_synonym lm = "int \<times> int"

record masked_map =
  ma_data :: "npfloat list"
  ma_mask :: "bool list"

definition np_real :: "pixel \<Rightarrow> npfloat" where
  "np_real z = fst z"

definition np_imag :: "pixel \<Rightarrow> npfloat" where
  "np_imag z = snd z"

definition np_isnan :: "pixel \<Rightarrow> bool" where
  "np_isnan z = (fst z = NaN \<or> snd z = NaN)"

fun is_fin :: "npfloat \<Rightarrow> bool" where
  "is_fin (Fin r) = True"
| "is_fin PInf = False"
| "is_fin NInf = False"
| "is_fin NaN = False"

definition np_isfinite :: "pixel \<Rightarrow> bool" where
  "np_isfinite z = (is_fin (fst z) \<and> is_fin (snd z))"

text \<open>
  \<^verbatim>\<open>re + 1j*im\<close> on two floats: numpy multiplies \<open>(0, 1)\<close> by \<open>(im, 0)\<close>, which gives
  \<open>(0*im - 1*0, 0*0 + 1*im)\<close>, and adds \<open>(re, 0)\<close>. The product \<open>0*im\<close> is 0 for a finite
  \<open>im\<close> and NaN otherwise.
\<close>

definition np_cmplx :: "npfloat \<Rightarrow> npfloat \<Rightarrow> pixel" where
  "np_cmplx re im = ((case im of Fin r \<Rightarrow> re | PInf \<Rightarrow> NaN | NInf \<Rightarrow> NaN | NaN \<Rightarrow> NaN), im)"

definition np_conj :: "cval \<Rightarrow> cval" where
  "np_conj a = map_option cnj a"

definition np_neg :: "cval \<Rightarrow> cval" where
  "np_neg a = map_option uminus a"

definition np_add :: "cval \<Rightarrow> cval \<Rightarrow> cval" where
  "np_add a b = (case a of None \<Rightarrow> None | Some x \<Rightarrow> (case b of None \<Rightarrow> None | Some y \<Rightarrow> Some (x + y)))"

definition np_sub :: "cval \<Rightarrow> cval \<Rightarrow> cval" where
  "np_sub a b = (case a of None \<Rightarrow> None | Some x \<Rightarrow> (case b of None \<Rightarrow> None | Some y \<Rightarrow> Some (x - y)))"

definition np_mul :: "cval \<Rightarrow> cval \<Rightarrow> cval" where
  "np_mul a b = (case a of None \<Rightarrow> None | Some x \<Rightarrow> (case b of None \<Rightarrow> None | Some y \<Rightarrow> Some (x * y)))"

text \<open>\<^verbatim>\<open>==\<close> on floats: NaN equals nothing, itself included.\<close>

definition np_eq :: "cval \<Rightarrow> cval \<Rightarrow> bool" where
  "np_eq a b = (case a of None \<Rightarrow> False | Some x \<Rightarrow> (case b of None \<Rightarrow> False | Some y \<Rightarrow> x = y))"

text \<open>
  The addition of \<^verbatim>\<open>Series.add(other, fill_value=0j)\<close>: a value missing on one side only is
  replaced by the fill value, a value missing on both sides stays missing.
\<close>

definition np_add_fill :: "cval \<Rightarrow> cval \<Rightarrow> cval" where
  "np_add_fill a b =
     (case a of
        None \<Rightarrow> (case b of None \<Rightarrow> None | Some y \<Rightarrow> Some (0 + y))
      | Some x \<Rightarrow> (case b of None \<Rightarrow> Some (x + 0) | Some y \<Rightarrow> Some (x + y)))"

subsection \<open>The index of a coefficient set\<close>

text \<open>
  Modelled from the spec: \<^verbatim>\<open>hp.Alm.getlm(lmax)\<close>, healpy's index helper, returns the
  arrays \<open>l\<close> and \<open>m\<close> of the pairs with \<open>0 \<le> m \<le> l \<le> lmax\<close>, ordered by \<open>m\<close> and, for
  equal \<open>m\<close>, by \<open>l\<close>. The two arrays are kept together as a list of pairs \<open>(l, m)\<close>.
\<close>

definition getlm :: "int \<Rightarrow> lm list" where
  "getlm lmax = concat (map (\<lambda>m. map (\<lambda>l. (l, m)) [m..lmax]) [0..lmax])"

text \<open>All pairs \<open>(l, m)\<close> with \<open>0 \<le> l \<le> lmax\<close> and \<open>|m| \<le> l\<close>, ordered by \<open>l\<close>, then \<open>m\<close>.\<close>

definition full_lm :: "int \<Rightarrow> lm list" where
  "full_lm lmax = concat (map (\<lambda>l. map (\<lambda>m. (l, m)) [- l..l]) [0..lmax])"

subsection \<open>Series operations\<close>

text \<open>\<^verbatim>\<open>pd.Series(data, index)\<close> raises ValueError when the lengths differ.\<close>

definition Series :: "cval list \<Rightarrow> 'k list \<Rightarrow> py_error + 'k series" where
  "Series dat idx = (if length dat = length idx then Inr (zip idx dat) else Inl ValueError)"

text \<open>A scalar operation on a Series keeps the index.\<close>

definition smap :: "(cval \<Rightarrow> cval) \<Rightarrow> 'k series \<Rightarrow> 'k series" where
  "smap f s = map (\<lambda>(k, v). (k, f v)) s"

definition lookup :: "'k series \<Rightarrow> 'k \<Rightarrow> cval" where
  "lookup s k = (case map_of s k of None \<Rightarrow> None | Some v \<Rightarrow> v)"

text \<open>
  A binary operation on two Series. When the two indexes are equal, pandas works row by
  row. Otherwise it aligns the operands on the sorted union of the labels, and a label
  missing on one side reads as NaN there. (Alignment of an index with repeated labels,
  which no function below builds, is not modelled.)
\<close>

definition series_binop ::
  "(cval \<Rightarrow> cval \<Rightarrow> cval) \<Rightarrow> ('k::linorder) series \<Rightarrow> 'k series \<Rightarrow> 'k series" where
  "series_binop f a b =
     (if map fst a = map fst b
      then map (\<lambda>((k, x), (k', y)). (k, f x y)) (zip a b)
      else map (\<lambda>k. (k, f (lookup a k) (lookup b k))) (sort (remdups (map fst a @ map fst b))))"

text \<open>
  \<^verbatim>\<open>s.drop(x, level=...)\<close> removes the rows whose label has \<open>x\<close> at that level, and raises
  KeyError when there is none.
\<close>

definition drop_level :: "('k \<Rightarrow> int) \<Rightarrow> int \<Rightarrow> 'k series \<Rightarrow> py_error + 'k series" where
  "drop_level lev x s =
     (if list_ex (\<lambda>(k, v). lev k = x) s
      then Inr (filter (\<lambda>(k, v). lev k \<noteq> x) s)
      else Inl KeyError)"

text \<open>
  \<^verbatim>\<open>s[bools]\<close> with a boolean array keeps the rows at the True positions, and raises when
  the array is not as long as the Series.
\<close>

definition bool_index :: "'k series \<Rightarrow> bool list \<Rightarrow> py_error + 'k series" where
  "bool_index s bs =
     (if length bs = length s then Inr (map fst (filter snd (zip s bs))) else Inl IndexingError)"

subsection \<open>\<^verbatim>\<open>cmplx_map_2_full_alm\<close>\<close>

text \<open>
  Lines 239 to 249: the mask is \<^verbatim>\<open>np.isnan(residuals)\<close>; \<^verbatim>\<open>hp.ma\<close> wraps the real and the
  imaginary parts, whose data it leaves as they are, and the mask of each is then
  overwritten with that one mask.
\<close>

definition masked_parts :: "pixel list \<Rightarrow> masked_map \<times> masked_map" where
  "masked_parts residuals =
     (let msk = map np_isnan residuals
      in (\<lparr>ma_data = map np_real residuals, ma_mask = msk\<rparr>,
          \<lparr>ma_data = map np_imag residuals, ma_mask = msk\<rparr>))"

text \<open>
  Lines 251 to 257, and again 259 to 263 for the imaginary part: the half set \<open>arr\<close> on
  the index \<open>lm\<close>, its mirror \<open>conj(arr) * (-1)**m\<close> on the index \<open>(l, -m)\<close> without the
  rows at \<open>m = 0\<close>, both concatenated and sorted by \<open>l\<close>, then \<open>m\<close>.
\<close>

definition half_2_full :: "lm list \<Rightarrow> cval list \<Rightarrow> py_error + lm series" where
  "half_2_full lm arr =
     (case Series arr lm of Inl e \<Rightarrow> Inl e | Inr alm_pos \<Rightarrow>
     (case Series (map (\<lambda>(a, m). np_mul (np_conj a) (Some ((- 1) ^ nat m))) (zip arr (map snd lm)))
             (map (\<lambda>(l, m). (l, - m)) lm)
      of Inl e \<Rightarrow> Inl e | Inr alm_neg \<Rightarrow>
     (case drop_level snd 0 alm_neg of Inl e \<Rightarrow> Inl e | Inr alm_neg' \<Rightarrow>
        Inr (sort_key fst (alm_pos @ alm_neg')))))"

definition cmplx_map_2_full_alm ::
  "(masked_map \<Rightarrow> int \<Rightarrow> py_error + cval list) \<Rightarrow> pixel list \<Rightarrow> int \<Rightarrow> py_error + lm series" where
  "cmplx_map_2_full_alm map2alm residuals lmax =
     (let lm = getlm lmax;
          (real_map, imag_map) = masked_parts residuals
      in case map2alm real_map lmax of Inl e \<Rightarrow> Inl e | Inr real_alm \<Rightarrow>
        (case map2alm imag_map lmax of Inl e \<Rightarrow> Inl e | Inr imag_alm \<Rightarrow>
        (case half_2_full lm real_alm of Inl e \<Rightarrow> Inl e | Inr alm_real \<Rightarrow>
        (case half_2_full lm imag_alm of Inl e \<Rightarrow> Inl e | Inr alm_imag \<Rightarrow>
           Inr (series_binop np_add alm_real (smap (np_mul (Some \<i>)) alm_imag))))))"

subsection \<open>\<^verbatim>\<open>full_alm_2_cmplx_map\<close>\<close>

text \<open>Lines 279 to 281: the copy of \<open>alm\<close> relabelled to \<open>(l, -m)\<close> and sorted.\<close>

definition alnegm_of :: "lm series \<Rightarrow> lm series" where
  "alnegm_of alm = sort_key fst (map (\<lambda>((l, m), v). ((l, - m), v)) alm)"

text \<open>
  \<^verbatim>\<open>(-1)**np.abs(m.values) * np.conj(alnegm)\<close>: an array times a Series, row by row; the
  signs are read from the index of \<open>alm\<close> in its own order.
\<close>

definition mirror_term :: "lm series \<Rightarrow> lm series" where
  "mirror_term alm =
     map (\<lambda>(m, (k, v)). (k, np_mul (Some ((- 1) ^ nat \<bar>m\<bar>)) (np_conj v)))
       (zip (map (\<lambda>(k, v). snd k) alm) (alnegm_of alm))"

definition re_alm_of :: "lm series \<Rightarrow> lm series" where
  "re_alm_of alm = smap (np_mul (Some (1 / 2))) (series_binop np_add alm (mirror_term alm))"

definition im_alm_of :: "lm series \<Rightarrow> lm series" where
  "im_alm_of alm =
     smap (np_mul (Some (\<i> / 2))) (series_binop np_add (smap np_neg alm) (mirror_term alm))"

text \<open>
  Lines 288 to 293: the rows at the positions where \<open>alm\<close> has \<open>m \<ge> 0\<close>, sorted by \<open>m\<close>,
  then \<open>l\<close>, as an array.
\<close>

definition to_healpy :: "lm series \<Rightarrow> lm series \<Rightarrow> py_error + cval list" where
  "to_healpy alm x =
     (case bool_index x (map (\<lambda>(k, v). 0 \<le> snd k) alm) of
        Inl e \<Rightarrow> Inl e
      | Inr rows \<Rightarrow> Inr (map snd (sort_key (\<lambda>(k, v). (snd k, fst k)) rows)))"

definition full_alm_2_cmplx_map ::
  "(cval list \<Rightarrow> int \<Rightarrow> int option \<Rightarrow> py_error + npfloat list) \<Rightarrow>
     lm series \<Rightarrow> int option \<Rightarrow> int option \<Rightarrow> py_error + pixel list" where
  "full_alm_2_cmplx_map alm2map alm nside_arg lmax =
     (let nside = (case nside_arg of None \<Rightarrow> 32 | Some n \<Rightarrow> n)
      in case to_healpy alm (re_alm_of alm) of Inl e \<Rightarrow> Inl e | Inr re_alm \<Rightarrow>
        (case to_healpy alm (im_alm_of alm) of Inl e \<Rightarrow> Inl e | Inr im_alm \<Rightarrow>
        (case alm2map re_alm nside lmax of Inl e \<Rightarrow> Inl e | Inr re_map \<Rightarrow>
        (case alm2map im_alm nside lmax of Inl e \<Rightarrow> Inl e | Inr im_map \<Rightarrow>
           (if length re_map = length im_map
            then Inr (map (\<lambda>(r, i). np_cmplx r i) (zip re_map im_map))
            else Inl ValueError)))))"

subsection \<open>\<^verbatim>\<open>full_alm_2_Cl\<close>\<close>

text \<open>
  \<^verbatim>\<open>sum(level='l')\<close> groups the rows by degree without sorting: the degrees come in the
  order in which they first appear in the index. It adds the values of each degree, and
  a NaN among them makes the sum NaN. \<^verbatim>\<open>astype(float)\<close> keeps the real part.
\<close>

definition first_seen :: "'a list \<Rightarrow> 'a list" where
  "first_seen xs = rev (remdups (rev xs))"

definition level_sum :: "cval list \<Rightarrow> cval" where
  "level_sum vs = foldr np_add vs (Some 0)"

definition full_alm_2_Cl :: "lm series \<Rightarrow> (int \<times> real option) list" where
  "full_alm_2_Cl alm =
     (let prod = series_binop np_mul alm (smap np_conj alm);
          Cl = map (\<lambda>l. (l, map_option Re
                  (level_sum (map snd (filter (\<lambda>(k, v). fst k = l) prod)))))
                 (first_seen (map (\<lambda>(k, v). fst k) prod))
      in map (\<lambda>(l, c). (l, map_option (\<lambda>x. x / (2 * real_of_int l + 1)) c)) Cl)"

subsection \<open>\<^verbatim>\<open>syn_full_alm\<close> and \<^verbatim>\<open>syn_cmplx_map\<close>\<close>

text \<open>Lines 340 to 342. The index here is \<open>(m, l)\<close>.\<close>

definition pos_assembly :: "lm series \<Rightarrow> lm series \<Rightarrow> lm series" where
  "pos_assembly almr almi = series_binop np_add almr (smap (np_mul (Some \<i>)) almi)"

definition neg_assembly :: "int list \<Rightarrow> lm list \<Rightarrow> lm series \<Rightarrow> lm series \<Rightarrow> lm series" where
  "neg_assembly m mneg_idx almr almi =
     zip mneg_idx
       (map (\<lambda>((k, v), m). np_mul (np_conj v) (Some ((- 1) ^ nat m)))
          (zip (series_binop np_sub almr (smap (np_mul (Some \<i>)) almi)) m))"

text \<open>\<^verbatim>\<open>s.loc[0]\<close> on the index \<open>(m, l)\<close>: the rows at \<open>m = 0\<close>, labelled by \<open>l\<close>.\<close>

definition loc0 :: "lm series \<Rightarrow> py_error + int series" where
  "loc0 s =
     (if list_ex (\<lambda>(k, v). fst k = 0) s
      then Inr (map (\<lambda>(k, v). (snd k, v)) (filter (\<lambda>(k, v). fst k = 0) s))
      else Inl KeyError)"

text \<open>Line 345: \<^verbatim>\<open>np.all(almn.loc[0] == almp.loc[0])\<close>, row by row.\<close>

definition m0_equal :: "int series \<Rightarrow> int series \<Rightarrow> bool" where
  "m0_equal n0 p0 = list_all2 np_eq (map snd n0) (map snd p0)"

text \<open>Lines 324 and 325: \<^verbatim>\<open>if lmax is None: lmax = len(Cls) - 1\<close>.\<close>

definition default_lmax :: "real list \<Rightarrow> int option \<Rightarrow> int" where
  "default_lmax Cls lmax_arg = (case lmax_arg of None \<Rightarrow> int (length Cls) - 1 | Some n \<Rightarrow> n)"

definition syn_full_alm ::
  "('g \<Rightarrow> real list \<Rightarrow> int \<Rightarrow> py_error + cval list \<times> 'g) \<Rightarrow>
     'g \<Rightarrow> real list \<Rightarrow> int option \<Rightarrow> py_error + lm series \<times> 'g" where
  "syn_full_alm synalm g Cls lmax_arg =
     (let lmax = default_lmax Cls lmax_arg;
          lm = getlm lmax;
          l = map fst lm;
          m = map snd lm;
          mpos_idx = zip m l;
          mneg_idx = zip (map uminus m) l;
          half = map (\<lambda>c. c * (1 / 2)) Cls
      in case synalm g half lmax of Inl e \<Rightarrow> Inl e | Inr (r_arr, g1) \<Rightarrow>
        (case Series r_arr mpos_idx of Inl e \<Rightarrow> Inl e | Inr almr \<Rightarrow>
        (case synalm g1 half lmax of Inl e \<Rightarrow> Inl e | Inr (i_arr, g2) \<Rightarrow>
        (case Series i_arr mpos_idx of Inl e \<Rightarrow> Inl e | Inr almi \<Rightarrow>
        (let almp = pos_assembly almr almi;
             almn = neg_assembly m mneg_idx almr almi
         in case loc0 almn of Inl e \<Rightarrow> Inl e | Inr n0 \<Rightarrow>
           (case loc0 almp of Inl e \<Rightarrow> Inl e | Inr p0 \<Rightarrow>
           (if \<not> m0_equal n0 p0 then Inl AssertionError
            else case drop_level fst 0 almn of Inl e \<Rightarrow> Inl e | Inr almn' \<Rightarrow>
              Inr (sort_key fst
                     (map (\<lambda>((m, l), v). ((l, m), v)) (series_binop np_add_fill almp almn')),
                   g2))))))))"


subsection \<open>Inputs of the theorems\<close>

text \<open>A list of rows whose values are all numbers, as a Series.\<close>

definition numbers :: "('k \<times> complex) list \<Rightarrow> 'k series" where
  "numbers rows = map (\<lambda>(k, z). (k, Some z)) rows"

text \<open>The entries at \<open>m = 0\<close> of an array laid out on the index \<open>lm\<close> are real numbers.\<close>

definition m0_real :: "lm list \<Rightarrow> cval list \<Rightarrow> bool" where
  "m0_real lm arr =
     list_all (\<lambda>(k, v). snd k \<noteq> 0 \<or> (case v of None \<Rightarrow> False | Some z \<Rightarrow> Im z = 0)) (zip lm arr)"

text \<open>
  Stand-ins for healpy, to run the functions on concrete inputs. The generator's state is
  a counter; the coefficient at \<open>(l, m)\<close> has the real part \<open>Cl[l] + g\<close> and the imaginary
  part \<open>m (l + 1)\<close>. The analysis returns, at \<open>(l, m)\<close>, the sum \<open>t\<close> of the finite pixels
  that are not masked, times \<open>(l + 1) + m i\<close>.
\<close>

definition cls_at :: "real list \<Rightarrow> int \<Rightarrow> real" where
  "cls_at cls l = (if 0 \<le> l \<and> nat l < length cls then cls ! nat l else 0)"

definition example_synalm :: "nat \<Rightarrow> real list \<Rightarrow> int \<Rightarrow> py_error + cval list \<times> nat" where
  "example_synalm g cls lmax =
     Inr (map (\<lambda>(l, m). Some (Complex (cls_at cls l + real g) (real_of_int (m * (l + 1)))))
            (getlm lmax),
          Suc g)"

definition unmasked_sum :: "masked_map \<Rightarrow> real" where
  "unmasked_sum mp =
     sum_list (map (\<lambda>(x, b). if b then 0 else (case x of Fin r \<Rightarrow> r | PInf \<Rightarrow> 0 | NInf \<Rightarrow> 0 | NaN \<Rightarrow> 0))
                 (zip (ma_data mp) (ma_mask mp)))"

definition example_map2alm :: "masked_map \<Rightarrow> int \<Rightarrow> py_error + cval list" where
  "example_map2alm mp lmax =
     Inr (map (\<lambda>(l, m). Some (Complex (unmasked_sum mp * real_of_int (l + 1))
                                  (unmasked_sum mp * real_of_int m)))
            (getlm lmax))"

text \<open>
  A generator that returns NaN at every degree whose spectrum entry is negative, as the
  square root of a negative variance would, and the stand-in's numbers elsewhere.
\<close>

definition nan_synalm :: "nat \<Rightarrow> real list \<Rightarrow> int \<Rightarrow> py_error + cval list \<times> nat" where
  "nan_synalm g cls lmax =
     Inr (map (\<lambda>(l, m). if cls_at cls l < 0 then None
                          else Some (Complex (cls_at cls l + real g) (real_of_int (m * (l + 1)))))
            (getlm lmax),
          Suc g)"

text \<open>A synthesis onto a single pixel: the real part of the first coefficient.\<close>

definition example_alm2map :: "cval list \<Rightarrow> int \<Rightarrow> int option \<Rightarrow> py_error + npfloat list" where
  "example_alm2map arr nside lmax =
     (case arr of
        [] \<Rightarrow> Inl HealpyError
      | a # rest \<Rightarrow> (case a of None \<Rightarrow> Inr [NaN] | Some z \<Rightarrow> Inr [Fin (Re z)]))"


section \<open>Defaults of the optional arguments\<close>



section \<open>The power spectrum\<close>

lemma fst_smap: "map fst (smap f s) = map fst s"
  by (induction s) (auto simp: smap_def)

lemma binop_same_index:
  "map fst a = map fst b \<Longrightarrow>
   series_binop f a b = map (\<lambda>((k, x), (k', y)). (k, f x y)) (zip a b)"
  by (simp add: series_binop_def)








text \<open>
  A NaN among the values of a degree makes its sum NaN.
\<close>

lemma level_sum_nan: "None \<in> set vs \<Longrightarrow> level_sum vs = None"
  by (induction vs) (auto simp: level_sum_def np_add_def split: option.splits)

text \<open>
  Two runs: the degrees 2, 0, 1 come out in the order in which they first appear, and a
  NaN coefficient makes the value of its degree NaN.
\<close>

lemma full_alm_2_Cl_order_example:
  "full_alm_2_Cl [((2, 0), Some (Complex 1 2)), ((0, 0), Some 2), ((2, 1), Some 1), ((1, 0), Some 3)] =
     [(2, Some (6 / 5)), (0, Some 4), (1, Some 3)]"
  by (simp add: full_alm_2_Cl_def series_binop_def smap_def first_seen_def level_sum_def
      np_mul_def np_conj_def np_add_def complex_eq_iff)

lemma full_alm_2_Cl_nan_example:
  "full_alm_2_Cl [((0, 0), Some 2), ((1, - 1), None), ((1, 0), Some 3), ((1, 1), Some 1)] =
     [(0, Some 4), (1, None)]"
  by (simp add: full_alm_2_Cl_def series_binop_def smap_def first_seen_def level_sum_def
      np_mul_def np_conj_def np_add_def complex_eq_iff)

section \<open>The assembly in \<^verbatim>\<open>syn_full_alm\<close>\<close>

lemma smap_zip: "smap f (zip ks xs) = zip ks (map f xs)"
  by (induction ks arbitrary: xs) (auto simp: smap_def zip_Cons1 split: list.splits) 

lemma zip_pos_map:
  "length xs = length ks \<Longrightarrow> length ys = length ks \<Longrightarrow>
   map (\<lambda>((k, x), (k', y)). (k, f x y)) (zip (zip ks xs) (zip ks ys)) =
   map (\<lambda>(k, (x, y)). (k, f x y)) (zip ks (zip xs ys))"
proof -
  assume "length xs = length ks" "length ys = length ks"
  then have "length ks = length xs" "length xs = length ys"
    by simp_all
  then show ?thesis
    by (induction ks xs ys rule: list_induct3) auto
qed

lemma binop_zip:
  assumes "length xs = length ks" "length ys = length ks"
  shows "series_binop f (zip ks xs) (zip ks ys) = map (\<lambda>(k, (x, y)). (k, f x y)) (zip ks (zip xs ys))"
proof -
  from assms have "map fst (zip ks xs) = map fst (zip ks ys)"
    by simp
  then show ?thesis
    using assms by (simp add: binop_same_index zip_pos_map)
qed

lemma swap_index: "zip (map snd lm) (map fst lm) = map (\<lambda>(l, m). (m, l)) lm"
  by (induction lm) auto

lemma neg_index: "zip (map uminus (map snd lm)) (map fst lm) = map (\<lambda>(l, m). (- m, l)) lm"
  by (induction lm) auto

lemma pos_assembly_rows:
  assumes "length r = length lm" "length i = length lm"
  shows "pos_assembly (zip (zip (map snd lm) (map fst lm)) r) (zip (zip (map snd lm) (map fst lm)) i) =
         map (\<lambda>((l, m), (x, y)). ((m, l), np_add x (np_mul (Some \<i>) y))) (zip lm (zip r i))"
proof -
  have "map (\<lambda>(k, (x, y)). (k, np_add x y)) (zip (map (\<lambda>(l, m). (m, l)) lm) (zip r (map (np_mul (Some \<i>)) i)))
      = map (\<lambda>((l, m), (x, y)). ((m, l), np_add x (np_mul (Some \<i>) y))) (zip lm (zip r i))"
  proof -
    from assms have "length lm = length r" "length r = length i"
      by simp_all
    then show ?thesis
      by (induction lm r i rule: list_induct3) auto
  qed
  then show ?thesis
    using assms by (simp add: pos_assembly_def smap_zip binop_zip swap_index)
qed

lemma neg_assembly_rows:
  assumes "length r = length lm" "length i = length lm"
  shows "neg_assembly (map snd lm) (zip (map uminus (map snd lm)) (map fst lm))
           (zip (zip (map snd lm) (map fst lm)) r) (zip (zip (map snd lm) (map fst lm)) i) =
         map (\<lambda>((l, m), (x, y)). ((- m, l), np_mul (np_conj (np_sub x (np_mul (Some \<i>) y))) (Some ((- 1) ^ nat m))))
           (zip lm (zip r i))"
proof -
  have "zip (map (\<lambda>(l, m). (- m, l)) lm)
          (map (\<lambda>((k, v), m). np_mul (np_conj v) (Some ((- 1) ^ nat m)))
             (zip (map (\<lambda>(k, (x, y)). (k, np_sub x y))
                     (zip (map (\<lambda>(l, m). (m, l)) lm) (zip r (map (np_mul (Some \<i>)) i))))
                  (map snd lm)))
      = map (\<lambda>((l, m), (x, y)). ((- m, l), np_mul (np_conj (np_sub x (np_mul (Some \<i>) y))) (Some ((- 1) ^ nat m))))
           (zip lm (zip r i))"
  proof -
    from assms have "length lm = length r" "length r = length i"
      by simp_all
    then show ?thesis
      by (induction lm r i rule: list_induct3) auto
  qed
  then show ?thesis
    using assms by (simp add: neg_assembly_def smap_zip binop_zip swap_index neg_index del: map_map)
qed

lemma zip3_member:
  "(k, (x, y)) \<in> set (zip ks (zip xs ys)) \<Longrightarrow> (k, x) \<in> set (zip ks xs) \<and> (k, y) \<in> set (zip ks ys)"
  by (auto simp: set_zip)

lemma m0_rows_agree:
  assumes "m0_real lm r" "m0_real lm i" "((l, m), (x, y)) \<in> set (zip lm (zip r i))" "m = 0"
  shows "np_eq (np_mul (np_conj (np_sub x (np_mul (Some \<i>) y))) (Some ((- 1) ^ nat m)))
               (np_add x (np_mul (Some \<i>) y))"
proof -
  from assms(3) have mem: "((l, m), x) \<in> set (zip lm r)" "((l, m), y) \<in> set (zip lm i)"
    by (auto dest: zip3_member)
  from assms(1) mem(1) \<open>m = 0\<close> obtain a where a: "x = Some a" "Im a = 0"
    by (auto simp: m0_real_def list_all_iff split: option.splits)
  from assms(2) mem(2) \<open>m = 0\<close> obtain b where b: "y = Some b" "Im b = 0"
    by (auto simp: m0_real_def list_all_iff split: option.splits)
  show ?thesis
    using a b \<open>m = 0\<close>
    by (simp add: np_eq_def np_mul_def np_conj_def np_sub_def np_add_def complex_eq_iff)
qed

lemma m0_equal_assemblies:
  assumes "length r = length lm" "length i = length lm" "m0_real lm r" "m0_real lm i"
    and "loc0 (neg_assembly (map snd lm) (zip (map uminus (map snd lm)) (map fst lm))
           (zip (zip (map snd lm) (map fst lm)) r) (zip (zip (map snd lm) (map fst lm)) i)) = Inr n0"
    and "loc0 (pos_assembly (zip (zip (map snd lm) (map fst lm)) r) (zip (zip (map snd lm) (map fst lm)) i)) = Inr p0"
  shows "m0_equal n0 p0"
proof -
  let ?T = "zip lm (zip r i)"
  let ?T0 = "filter (\<lambda>((l, m), (x, y)). m = 0) ?T"
  let ?fn = "\<lambda>((l, m), (x, y)). np_mul (np_conj (np_sub x (np_mul (Some \<i>) y))) (Some ((- 1) ^ nat m))"
  let ?fp = "\<lambda>((l, m), (x, y)). np_add x (np_mul (Some \<i>) y)"
  have n0: "map snd n0 = map ?fn ?T0"
    using assms(5) unfolding neg_assembly_rows [OF assms(1,2)]
    by (auto simp: loc0_def filter_map comp_def case_prod_unfold split: if_splits)
  have p0: "map snd p0 = map ?fp ?T0"
    using assms(6) unfolding pos_assembly_rows [OF assms(1,2)]
    by (auto simp: loc0_def filter_map comp_def case_prod_unfold split: if_splits)
  have "\<forall>t \<in> set ?T0. np_eq (?fn t) (?fp t)"
    using m0_rows_agree [OF assms(3,4)] by auto
  then show ?thesis
    unfolding m0_equal_def n0 p0
    by (simp add: list_all2_map1 list_all2_map2 list_all2_same)
qed


lemma set_getlm: "set (getlm lmax) = {(l, m). 0 \<le> m \<and> m \<le> l \<and> l \<le> lmax}"
proof (intro set_eqI iffI)
  fix k assume "k \<in> set (getlm lmax)"
  then show "k \<in> {(l, m). 0 \<le> m \<and> m \<le> l \<and> l \<le> lmax}"
    by (auto simp: getlm_def)
next
  fix k :: lm assume k: "k \<in> {(l, m). 0 \<le> m \<and> m \<le> l \<and> l \<le> lmax}"
  obtain l m where [simp]: "k = (l, m)"
    by (cases k)
  from k have "m \<in> {0..lmax}" "(l, m) \<in> (\<lambda>l. (l, m)) ` {m..lmax}"
    by auto
  then show "k \<in> set (getlm lmax)"
    unfolding getlm_def by (simp, blast)
qed

lemma m0_row_exists:
  assumes "0 \<le> lmax" "length r = length (getlm lmax)" "length i = length (getlm lmax)"
  shows "\<exists>x y. ((0, 0), (x, y)) \<in> set (zip (getlm lmax) (zip r i))"
proof -
  from assms(1) have mem: "(0, 0) \<in> set (getlm lmax)"
    by (simp add: set_getlm)
  from assms(2,3) have len: "length (getlm lmax) = length (zip r i)"
    by simp
  from in_set_impl_in_set_zip1 [OF len mem] obtain v
    where "((0, 0), v) \<in> set (zip (getlm lmax) (zip r i))"
    by blast
  then show ?thesis
    by (cases v) auto
qed

lemma loc0_error: "loc0 s = Inl e \<Longrightarrow> e = KeyError"
  by (auto simp: loc0_def split: if_splits)

lemma drop_level_error: "drop_level lev x s = Inl e \<Longrightarrow> e = KeyError"
  by (auto simp: drop_level_def split: if_splits)

lemma syn_full_alm_unfold:
  fixes Cls lmax_arg r_arr i_arr
  defines "lm \<equiv> getlm (default_lmax Cls lmax_arg)"
  defines "almp \<equiv> pos_assembly (zip (zip (map snd lm) (map fst lm)) r_arr)
                  (zip (zip (map snd lm) (map fst lm)) i_arr)"
  defines "almn \<equiv> neg_assembly (map snd lm) (zip (map uminus (map snd lm)) (map fst lm))
                  (zip (zip (map snd lm) (map fst lm)) r_arr)
                  (zip (zip (map snd lm) (map fst lm)) i_arr)"
  assumes "synalm g (map (\<lambda>c. c * (1 / 2)) Cls) (default_lmax Cls lmax_arg) = Inr (r_arr, g1)"
    and "synalm g1 (map (\<lambda>c. c * (1 / 2)) Cls) (default_lmax Cls lmax_arg) = Inr (i_arr, g2)"
    and "length r_arr = length (getlm (default_lmax Cls lmax_arg))"
    and "length i_arr = length (getlm (default_lmax Cls lmax_arg))"
  shows "syn_full_alm synalm g Cls lmax_arg =
     (case loc0 almn of Inl e \<Rightarrow> Inl e | Inr n0 \<Rightarrow>
       (case loc0 almp of Inl e \<Rightarrow> Inl e | Inr p0 \<Rightarrow>
         (if \<not> m0_equal n0 p0 then Inl AssertionError
          else case drop_level fst 0 almn of Inl e \<Rightarrow> Inl e | Inr almn' \<Rightarrow>
            Inr (sort_key fst
                   (map (\<lambda>((m, l), v). ((l, m), v)) (series_binop np_add_fill almp almn')),
                 g2))))"
  unfolding lm_def almp_def almn_def
  using assms(4-7) by (simp add: syn_full_alm_def Series_def Let_def del: map_map)

text \<open>
  C7. Whenever the generator returns two half sets whose entries at \<open>m = 0\<close> are real
  numbers, the rows at \<open>m = 0\<close> of the positive assembly \<open>r + i*i\<close> and of the negative
  assembly \<open>conj(r - i*i) * (-1)**m\<close> are equal, so \<^verbatim>\<open>syn_full_alm\<close> does not fail with the
  AssertionError of line 345.
\<close>

theorem m0_assertion_never_fails:
  assumes "synalm g (map (\<lambda>c. c * (1 / 2)) Cls) (default_lmax Cls lmax_arg) = Inr (r_arr, g1)"
    and "synalm g1 (map (\<lambda>c. c * (1 / 2)) Cls) (default_lmax Cls lmax_arg) = Inr (i_arr, g2)"
    and "m0_real (getlm (default_lmax Cls lmax_arg)) r_arr"
    and "m0_real (getlm (default_lmax Cls lmax_arg)) i_arr"
  shows "syn_full_alm synalm g Cls lmax_arg \<noteq> Inl AssertionError"
proof (cases "length r_arr = length (getlm (default_lmax Cls lmax_arg))
            \<and> length i_arr = length (getlm (default_lmax Cls lmax_arg))")
  case False
  then show ?thesis
    using assms(1,2) by (auto simp: syn_full_alm_def Series_def Let_def)
next
  case True
  then have len: "length r_arr = length (getlm (default_lmax Cls lmax_arg))"
    "length i_arr = length (getlm (default_lmax Cls lmax_arg))"
    by simp_all
  show ?thesis
    unfolding syn_full_alm_unfold [where synalm = synalm, OF assms(1,2) len]
    using m0_equal_assemblies [OF len assms(3,4)]
    by (auto split: sum.splits dest: loc0_error drop_level_error)
qed

text \<open>
  C5, as amended. \<^verbatim>\<open>syn_full_alm\<close> does not look at the sign of the spectrum: for every
  \<open>Cls\<close>, negative entries included, it hands \<open>Cls * 0.5\<close> to the generator and returns a
  coefficient set whenever \<open>lmax \<ge> 0\<close> and the generator returns two arrays of the length
  of the index whose entries at \<open>m = 0\<close> are real numbers.
\<close>

theorem syn_full_alm_accepts_any_spectrum:
  assumes "synalm g (map (\<lambda>c. c * (1 / 2)) Cls) (default_lmax Cls lmax_arg) = Inr (r_arr, g1)"
    and "synalm g1 (map (\<lambda>c. c * (1 / 2)) Cls) (default_lmax Cls lmax_arg) = Inr (i_arr, g2)"
    and "length r_arr = length (getlm (default_lmax Cls lmax_arg))"
    and "length i_arr = length (getlm (default_lmax Cls lmax_arg))"
    and "m0_real (getlm (default_lmax Cls lmax_arg)) r_arr"
    and "m0_real (getlm (default_lmax Cls lmax_arg)) i_arr"
    and "0 \<le> default_lmax Cls lmax_arg"
  shows "\<exists>alm. syn_full_alm synalm g Cls lmax_arg = Inr (alm, g2)"
proof -
  let ?lm = "getlm (default_lmax Cls lmax_arg)"
  let ?mpos = "zip (map snd ?lm) (map fst ?lm)"
  let ?almp = "pos_assembly (zip ?mpos r_arr) (zip ?mpos i_arr)"
  let ?almn = "neg_assembly (map snd ?lm) (zip (map uminus (map snd ?lm)) (map fst ?lm))
                 (zip ?mpos r_arr) (zip ?mpos i_arr)"
  from m0_row_exists [OF assms(7,3,4)] obtain x y
    where row: "((0, 0), (x, y)) \<in> set (zip ?lm (zip r_arr i_arr))"
    by blast
  have exn: "list_ex (\<lambda>(k, v). fst k = 0) ?almn"
    unfolding neg_assembly_rows [OF assms(3,4)] list_ex_iff
    using row by force
  have exp: "list_ex (\<lambda>(k, v). fst k = 0) ?almp"
    unfolding pos_assembly_rows [OF assms(3,4)] list_ex_iff
    using row by force
  from exn obtain n0 where n0: "loc0 ?almn = Inr n0"
    by (simp add: loc0_def)
  from exp obtain p0 where p0: "loc0 ?almp = Inr p0"
    by (simp add: loc0_def)
  have eq: "m0_equal n0 p0"
    using m0_equal_assemblies [OF assms(3,4,5,6) n0 p0] .
  from exn obtain almn' where dr: "drop_level fst 0 ?almn = Inr almn'"
    by (simp add: drop_level_def)
  show ?thesis
    unfolding syn_full_alm_unfold [where synalm = synalm, OF assms(1,2,3,4)]
    using n0 p0 eq dr by simp
qed


lemma getlm_0: "getlm 0 = [(0, 0)]"
  by (simp add: getlm_def upto.simps)

lemma getlm_1: "getlm 1 = [(0, 0), (1, 0), (1, 1)]"
  by (simp add: getlm_def upto.simps)

text \<open>
  The claim as stated fails: on the spectrum \<open>[-1]\<close>, \<^verbatim>\<open>syn_full_alm\<close> returns a coefficient
  set when the generator returns numbers, and fails with the AssertionError of line 345
  when the generator returns NaN there. In neither case is the spectrum rejected.
\<close>

theorem negative_spectrum_counterexample:
  "syn_full_alm example_synalm 0 [- 1] None = Inr ([((0, 0), Some (Complex (- (1 / 2)) (1 / 2)))], 2)
   \<and> syn_full_alm nan_synalm 0 [- 1] None = Inl AssertionError"
proof -
  have "syn_full_alm example_synalm 0 [- 1] None = Inr ([((0, 0), Some (Complex (- (1 / 2)) (1 / 2)))], 2)"
    by (simp add: syn_full_alm_def default_lmax_def example_synalm_def getlm_0 cls_at_def Series_def
      pos_assembly_def neg_assembly_def series_binop_def smap_def loc0_def m0_equal_def
      drop_level_def lookup_def np_add_def np_mul_def np_sub_def np_conj_def np_eq_def
      np_add_fill_def complex_eq_iff)
  moreover have "syn_full_alm nan_synalm 0 [- 1] None = Inl AssertionError"
    by (simp add: syn_full_alm_def default_lmax_def nan_synalm_def getlm_0 cls_at_def Series_def
      pos_assembly_def neg_assembly_def series_binop_def smap_def loc0_def m0_equal_def
      np_add_def np_mul_def np_sub_def np_conj_def np_eq_def)
  ultimately show ?thesis
    by simp
qed

theorem m0_assertion_never_fails_witness:
  "m0_real (getlm 1) [Some (Complex (1 / 2) 0), Some (Complex 1 0), Some (Complex 1 2)]
   \<and> m0_real (getlm 1) [Some (Complex (3 / 2) 0), Some (Complex 2 0), Some (Complex 2 2)]
   \<and> syn_full_alm example_synalm 0 [1, 2] None \<noteq> Inl AssertionError"
proof -
  have lmax: "default_lmax [1, 2] None = 1"
    by (simp add: default_lmax_def)
  have g1: "example_synalm 0 (map (\<lambda>c. c * (1 / 2)) [1, 2]) (default_lmax [1, 2] None) =
      Inr ([Some (Complex (1 / 2) 0), Some (Complex 1 0), Some (Complex 1 2)], 1)"
    by (simp add: lmax example_synalm_def getlm_1 cls_at_def)
  have g2: "example_synalm 1 (map (\<lambda>c. c * (1 / 2)) [1, 2]) (default_lmax [1, 2] None) =
      Inr ([Some (Complex (3 / 2) 0), Some (Complex 2 0), Some (Complex 2 2)], 2)"
    by (simp add: lmax example_synalm_def getlm_1 cls_at_def)
  have r: "m0_real (getlm 1) [Some (Complex (1 / 2) 0), Some (Complex 1 0), Some (Complex 1 2)]"
    by (simp add: m0_real_def getlm_1)
  have i: "m0_real (getlm 1) [Some (Complex (3 / 2) 0), Some (Complex 2 0), Some (Complex 2 2)]"
    by (simp add: m0_real_def getlm_1)
  from m0_assertion_never_fails [where synalm = example_synalm, OF g1 g2] r i
  show ?thesis
    by (simp add: lmax)
qed

theorem syn_full_alm_accepts_any_spectrum_witness:
  "m0_real (getlm 0) [Some (Complex (- (1 / 2)) 0)] \<and> m0_real (getlm 0) [Some (Complex (1 / 2) 0)]
   \<and> (\<exists>alm. syn_full_alm example_synalm 0 [- 1] None = Inr (alm, 2))"
proof -
  have lmax: "default_lmax [- 1] None = 0"
    by (simp add: default_lmax_def)
  have g1: "example_synalm 0 (map (\<lambda>c. c * (1 / 2)) [- 1]) (default_lmax [- 1] None) =
      Inr ([Some (Complex (- (1 / 2)) 0)], 1)"
    by (simp add: lmax example_synalm_def getlm_0 cls_at_def)
  have g2: "example_synalm 1 (map (\<lambda>c. c * (1 / 2)) [- 1]) (default_lmax [- 1] None) =
      Inr ([Some (Complex (1 / 2) 0)], 2)"
    by (simp add: lmax example_synalm_def getlm_0 cls_at_def)
  have r: "m0_real (getlm 0) [Some (Complex (- (1 / 2)) 0)]"
    by (simp add: m0_real_def getlm_0)
  have i: "m0_real (getlm 0) [Some (Complex (1 / 2) 0)]"
    by (simp add: m0_real_def getlm_0)
  from syn_full_alm_accepts_any_spectrum [where synalm = example_synalm, OF g1 g2] r i
  show ?thesis
    by (simp add: lmax getlm_0)
qed

section \<open>The mask of \<^verbatim>\<open>cmplx_map_2_full_alm\<close>\<close>




section \<open>The index of a full coefficient set\<close>

lemma map_insort_key: "map f (insort_key f x xs) = insort (f x) (map f xs)"
  by (induction xs) auto

lemma map_sort_key: "map f (sort_key f xs) = sort (map f xs)"
  by (induction xs) (auto simp: map_insort_key)

lemma sorted_wrt_less_pairs:
  fixes ls :: "int list"
  assumes "sorted_wrt (<) ls" "\<And>l. sorted_wrt (<) (f l :: int list)"
  shows "sorted_wrt (<) (concat (map (\<lambda>l. map (\<lambda>m. (l, m)) (f l)) ls))"
  using assms(1)
proof (induction ls)
  case Nil
  then show ?case by simp
next
  case (Cons l ls)
  have "sorted_wrt (<) (map (\<lambda>m. (l, m)) (f l))"
    using assms(2) [of l] by (simp add: sorted_wrt_map less_prod_def)
  moreover have "sorted_wrt (<) (concat (map (\<lambda>l. map (\<lambda>m. (l, m)) (f l)) ls))"
    using Cons by simp
  moreover have "\<forall>x \<in> set (map (\<lambda>m. (l, m)) (f l)).
      \<forall>y \<in> set (concat (map (\<lambda>l. map (\<lambda>m. (l, m)) (f l)) ls)). x < y"
    using Cons.prems by (auto simp: less_prod_def)
  ultimately show ?case
    by (simp add: sorted_wrt_append)
qed

lemma sorted_full_lm: "sorted_wrt (<) (full_lm lmax)"
  unfolding full_lm_def by (rule sorted_wrt_less_pairs) simp_all

lemma distinct_full_lm: "distinct (full_lm lmax)"
  using sorted_full_lm by (simp add: strict_sorted_iff)

lemma set_full_lm: "set (full_lm lmax) = {(l, m). 0 \<le> l \<and> l \<le> lmax \<and> \<bar>m\<bar> \<le> l}"
proof (intro set_eqI iffI)
  fix k assume "k \<in> set (full_lm lmax)"
  then show "k \<in> {(l, m). 0 \<le> l \<and> l \<le> lmax \<and> \<bar>m\<bar> \<le> l}"
    by (auto simp: full_lm_def)
next
  fix k :: lm assume k: "k \<in> {(l, m). 0 \<le> l \<and> l \<le> lmax \<and> \<bar>m\<bar> \<le> l}"
  obtain l m where [simp]: "k = (l, m)"
    by (cases k)
  from k have "l \<in> {0..lmax}" "m \<in> {- l..l}"
    by auto
  then show "k \<in> set (full_lm lmax)"
    unfolding full_lm_def by (simp, blast)
qed

lemma distinct_getlm: "distinct (getlm lmax)"
proof -
  have "map (\<lambda>(l, m). (m, l)) (getlm lmax) = concat (map (\<lambda>m. map (\<lambda>l. (m, l)) [m..lmax]) [0..lmax])"
    by (simp add: getlm_def map_concat comp_def)
  moreover have "sorted_wrt (<) (concat (map (\<lambda>m. map (\<lambda>l. (m, l)) [m..lmax]) [0..lmax]))"
    by (rule sorted_wrt_less_pairs) simp_all
  ultimately have "distinct (map (\<lambda>(l, m). (m, l)) (getlm lmax))"
    by (simp add: strict_sorted_iff)
  then show ?thesis
    by (simp add: distinct_map)
qed

text \<open>The index that both functions build: the half index and its mirror without \<open>m = 0\<close>.\<close>

lemma merged_index:
  "sort (getlm lmax @ filter (\<lambda>k. snd k \<noteq> 0) (map (\<lambda>(l, m). (l, - m)) (getlm lmax))) = full_lm lmax"
proof -
  let ?neg = "filter (\<lambda>k. snd k \<noteq> 0) (map (\<lambda>(l, m). (l, - m)) (getlm lmax))"
  have inj: "inj_on (\<lambda>(l, m). (l, - m)) (set (getlm lmax))"
    by (auto simp: inj_on_def)
  have "distinct ?neg"
    using distinct_getlm inj by (simp add: distinct_map)
  moreover have "set (getlm lmax) \<inter> set ?neg = {}"
    by (auto simp: set_getlm)
  ultimately have "distinct (getlm lmax @ ?neg)"
    using distinct_getlm by simp
  then have "sorted_wrt (<) (sort (getlm lmax @ ?neg))"
    by (simp add: strict_sorted_iff)
  moreover have "set (sort (getlm lmax @ ?neg)) = set (full_lm lmax)"
  proof -
    have "set ?neg = {(l, m). m < 0 \<and> - m \<le> l \<and> l \<le> lmax}"
    proof (intro set_eqI iffI)
      fix k assume "k \<in> set ?neg"
      then show "k \<in> {(l, m). m < 0 \<and> - m \<le> l \<and> l \<le> lmax}"
        by (auto simp: set_getlm)
    next
      fix k :: lm assume k: "k \<in> {(l, m). m < 0 \<and> - m \<le> l \<and> l \<le> lmax}"
      obtain l m where [simp]: "k = (l, m)"
        by (cases k)
      from k have mem: "(l, - m) \<in> set (getlm lmax)" and "m \<noteq> 0"
        by (auto simp: set_getlm)
      have "(l, m) \<in> (\<lambda>(l, m). (l, - m)) ` set (getlm lmax)"
        by (rule rev_image_eqI [OF mem]) simp
      with \<open>m \<noteq> 0\<close> show "k \<in> set ?neg"
        by simp
    qed
    then show ?thesis
      by (auto simp: set_getlm set_full_lm)
  qed
  ultimately show ?thesis
    using sorted_full_lm by (metis strict_sorted_equal)
qed

lemma count_list_distinct: "distinct xs \<Longrightarrow> count_list xs x = (if x \<in> set xs then 1 else 0)"
  by (induction xs) auto

lemma count_full_lm:
  "count_list (full_lm lmax) (l, m) = (if 0 \<le> l \<and> l \<le> lmax \<and> \<bar>m\<bar> \<le> l then 1 else 0)"
  by (simp add: count_list_distinct distinct_full_lm set_full_lm)


lemma mirror_rows:
  assumes "length arr = length lm"
  shows "zip (map (\<lambda>(l, m). (l, - m)) lm)
           (map (\<lambda>(a, m). np_mul (np_conj a) (Some ((- 1) ^ nat m))) (zip arr (map snd lm))) =
         map (\<lambda>((l, m), a). ((l, - m), np_mul (np_conj a) (Some ((- 1) ^ nat m)))) (zip lm arr)"
proof -
  from assms have "length lm = length arr"
    by simp
  then show ?thesis
    by (induction lm arr rule: list_induct2) auto
qed

lemma half_2_full_rows:
  assumes "length arr = length lm"
  shows "half_2_full lm arr =
     (if list_ex (\<lambda>k. snd k = 0) lm
      then Inr (sort_key fst (zip lm arr @
             filter (\<lambda>(k, v). snd k \<noteq> 0)
               (map (\<lambda>((l, m), a). ((l, - m), np_mul (np_conj a) (Some ((- 1) ^ nat m)))) (zip lm arr))))
      else Inl KeyError)"
proof -
  let ?neg = "map (\<lambda>((l, m), a). ((l, - m), np_mul (np_conj a) (Some ((- 1) ^ nat m)))) (zip lm arr)"
  have "list_ex (\<lambda>(k, v). snd k = 0) (map (\<lambda>((l, m), a). ((l, - m), g a m)) T) =
        list_ex (\<lambda>k. snd k = 0) (map fst T)" for g :: "cval \<Rightarrow> int \<Rightarrow> cval" and T :: "lm series"
    by (induction T) auto
  from this [of _ "zip lm arr"] assms
  have "list_ex (\<lambda>(k, v). snd k = 0) ?neg = list_ex (\<lambda>k. snd k = 0) lm"
    by simp
  then show ?thesis
    using assms by (simp add: half_2_full_def Series_def mirror_rows drop_level_def)
qed


lemma half_2_full_error: "half_2_full lm arr = Inl e \<Longrightarrow> e = ValueError \<or> e = KeyError"
  by (auto simp: half_2_full_def Series_def drop_level_def split: if_splits sum.splits)

lemma half_2_full_length: "half_2_full lm arr = Inr s \<Longrightarrow> length arr = length lm"
  by (auto simp: half_2_full_def Series_def split: if_splits)

lemma half_2_full_keys:
  assumes "half_2_full lm arr = Inr s"
  shows "map fst s = sort (lm @ filter (\<lambda>k. snd k \<noteq> 0) (map (\<lambda>(l, m). (l, - m)) lm))"
proof -
  have len: "length arr = length lm"
    using assms by (rule half_2_full_length)
  let ?neg = "map (\<lambda>((l, m), a). ((l, - m), np_mul (np_conj a) (Some ((- 1) ^ nat m)))) (zip lm arr)"
  have "map fst ?neg = map (\<lambda>(l, m). (l, - m)) lm"
    using len by (simp add: mirror_rows [symmetric])
  then have "map fst (filter (\<lambda>(k, v). snd k \<noteq> 0) ?neg) =
      filter (\<lambda>k. snd k \<noteq> 0) (map (\<lambda>(l, m). (l, - m)) lm)"
    by (metis (mono_tags, lifting) filter_map comp_def case_prod_unfold filter_cong)
  moreover have "s = sort_key fst (zip lm arr @ filter (\<lambda>(k, v). snd k \<noteq> 0) ?neg)"
    using assms by (simp add: half_2_full_rows [OF len] split: if_splits)
  ultimately show ?thesis
    using len by (simp add: map_sort_key)
qed

lemma keys_binop_same:
  assumes "map fst a = map fst b"
  shows "map fst (series_binop f a b) = map fst a"
proof -
  from assms have "length a = length b"
    by (rule map_eq_imp_length_eq)
  then have "map fst (map (\<lambda>((k, x), (k', y)). (k, f x y)) (zip a b)) = map fst a"
    by (induction a b rule: list_induct2) auto
  with assms show ?thesis
    by (simp add: binop_same_index)
qed

lemma analyzer_keys:
  assumes "cmplx_map_2_full_alm map2alm X lmax = Inr alm"
  shows "map fst alm = full_lm lmax"
proof -
  from assms obtain real_alm imag_alm alm_real alm_imag
    where re: "half_2_full (getlm lmax) real_alm = Inr alm_real"
      and im: "half_2_full (getlm lmax) imag_alm = Inr alm_imag"
      and alm: "alm = series_binop np_add alm_real (smap (np_mul (Some \<i>)) alm_imag)"
    by (auto simp: cmplx_map_2_full_alm_def Let_def split: prod.splits sum.splits)
  have "map fst alm_real = map fst (smap (np_mul (Some \<i>)) alm_imag)"
    by (simp add: fst_smap half_2_full_keys [OF re] half_2_full_keys [OF im])
  then have "map fst alm = map fst alm_real"
    unfolding alm by (rule keys_binop_same)
  then show ?thesis
    by (simp add: half_2_full_keys [OF re] merged_index)
qed


lemma keys_binop_set:
  "set (map fst (series_binop f a b)) = set (map fst a) \<union> set (map fst b)"
proof (cases "map fst a = map fst b")
  case True
  then show ?thesis
    by (simp only: keys_binop_same [OF True]) simp
next
  case False
  then show ?thesis
    by (simp add: series_binop_def comp_def)
qed

lemma keys_binop_distinct:
  "distinct (map fst a) \<Longrightarrow> distinct (map fst (series_binop f a b))"
proof (cases "map fst a = map fst b")
  case True
  assume "distinct (map fst a)"
  then show ?thesis
    by (simp only: keys_binop_same [OF True])
next
  case False
  then show ?thesis
    by (simp add: series_binop_def comp_def)
qed

lemma swapped_mirror:
  "map (\<lambda>(m, l). (l, m)) (filter (\<lambda>k. fst k \<noteq> 0) (map (\<lambda>(l, m). (- m, l)) lm)) =
   filter (\<lambda>k. snd k \<noteq> 0) (map (\<lambda>(l, m). (l, - m)) lm)"
  by (induction lm) auto

lemma swaplevel_keys:
  "map fst (map (\<lambda>((m, l), v). ((l, m), v)) s) = map (\<lambda>(m, l). (l, m)) (map fst s)"
  by (induction s) auto

lemma map_keys_zip:
  "length vs = length ks \<Longrightarrow> map (\<lambda>x. f (fst x)) (zip ks vs) = map f ks"
proof -
  assume "length vs = length ks"
  then have "length ks = length vs"
    by simp
  then show ?thesis
    by (induction ks vs rule: list_induct2) auto
qed

lemma distinct_swapped: "distinct xs \<Longrightarrow> distinct (map (\<lambda>(m, l). (l, m)) xs)"
  by (auto simp: distinct_map inj_on_def)

lemma syn_full_alm_keys:
  assumes "syn_full_alm synalm g Cls lmax_arg = Inr (alm, g')"
  shows "map fst alm = full_lm (default_lmax Cls lmax_arg)"
proof -
  let ?lm = "getlm (default_lmax Cls lmax_arg)"
  let ?mpos = "zip (map snd ?lm) (map fst ?lm)"
  let ?half = "map (\<lambda>c. c * (1 / 2)) Cls"
  from assms obtain r_arr g1 where g1: "synalm g ?half (default_lmax Cls lmax_arg) = Inr (r_arr, g1)"
    by (auto simp: syn_full_alm_def Let_def split: sum.splits)
  with assms have lr: "length r_arr = length ?lm"
    by (auto simp: syn_full_alm_def Let_def Series_def split: if_splits)
  from assms g1 lr obtain i_arr g2 where g2: "synalm g1 ?half (default_lmax Cls lmax_arg) = Inr (i_arr, g2)"
    by (auto simp: syn_full_alm_def Let_def Series_def split: sum.splits)
  with assms g1 lr have li: "length i_arr = length ?lm"
    by (auto simp: syn_full_alm_def Let_def Series_def split: if_splits)
  let ?almp = "pos_assembly (zip ?mpos r_arr) (zip ?mpos i_arr)"
  let ?almn = "neg_assembly (map snd ?lm) (zip (map uminus (map snd ?lm)) (map fst ?lm))
                 (zip ?mpos r_arr) (zip ?mpos i_arr)"
  let ?sum = "series_binop np_add_fill ?almp (filter (\<lambda>(k, v). fst k \<noteq> 0) ?almn)"
  have alm: "alm = sort_key fst (map (\<lambda>((m, l), v). ((l, m), v)) ?sum)"
    using assms unfolding syn_full_alm_unfold [where synalm = synalm, OF g1 g2 lr li]
    by (auto simp: drop_level_def split: sum.splits if_splits)
  have kp: "map fst ?almp = map (\<lambda>(l, m). (m, l)) ?lm"
    unfolding pos_assembly_rows [OF lr li]
    using lr li map_keys_zip [of "zip r_arr i_arr" ?lm "\<lambda>p. (snd p, fst p)"]
    by (simp add: comp_def case_prod_unfold)
  have kn: "map fst (filter (\<lambda>(k, v). fst k \<noteq> 0) ?almn) =
      filter (\<lambda>k. fst k \<noteq> 0) (map (\<lambda>(l, m). (- m, l)) ?lm)"
  proof -
    have "map fst ?almn = map (\<lambda>(l, m). (- m, l)) ?lm"
      unfolding neg_assembly_rows [OF lr li]
      using lr li map_keys_zip [of "zip r_arr i_arr" ?lm "\<lambda>p. (- snd p, fst p)"]
      by (simp add: comp_def case_prod_unfold)
    then show ?thesis
      by (metis (mono_tags, lifting) filter_map comp_def case_prod_unfold filter_cong)
  qed
  let ?keys = "map (\<lambda>(m, l). (l, m)) (map fst ?sum)"
  have "distinct (map fst ?almp)"
    unfolding kp using distinct_getlm [of "default_lmax Cls lmax_arg"]
    by (auto simp: distinct_map inj_on_def)
  then have "distinct (map fst ?sum)"
    by (rule keys_binop_distinct)
  then have "distinct ?keys"
    by (rule distinct_swapped)
  then have sorted: "sorted_wrt (<) (sort ?keys)"
    by (simp add: strict_sorted_iff)
  have "set (map fst ?sum) =
      set (map fst ?almp) \<union> set (map fst (filter (\<lambda>(k, v). fst k \<noteq> 0) ?almn))"
    by (rule keys_binop_set)
  then have "set ?keys = set (map (\<lambda>(m, l). (l, m)) (map fst ?almp))
      \<union> set (map (\<lambda>(m, l). (l, m)) (map fst (filter (\<lambda>(k, v). fst k \<noteq> 0) ?almn)))"
    by (simp only: set_map image_Un)
  also have "map (\<lambda>(m, l). (l, m)) (map fst ?almp) = ?lm"
    unfolding kp by (simp add: comp_def case_prod_unfold)
  also have "map (\<lambda>(m, l). (l, m)) (map fst (filter (\<lambda>(k, v). fst k \<noteq> 0) ?almn)) =
      filter (\<lambda>k. snd k \<noteq> 0) (map (\<lambda>(l, m). (l, - m)) ?lm)"
    unfolding kn by (rule swapped_mirror)
  finally have "set (sort ?keys) = set (full_lm (default_lmax Cls lmax_arg))"
    by (simp add: merged_index [symmetric])
  with sorted have "sort ?keys = full_lm (default_lmax Cls lmax_arg)"
    using sorted_full_lm by (metis strict_sorted_equal)
  then show ?thesis
    unfolding alm by (simp only: map_sort_key swaplevel_keys)
qed


text \<open>
  C8. Every full coefficient set that \<^verbatim>\<open>cmplx_map_2_full_alm\<close> or \<^verbatim>\<open>syn_full_alm\<close> returns
  has the index \<open>full_lm lmax\<close>: each pair \<open>(l, m)\<close> with \<open>0 \<le> l \<le> lmax\<close> and \<open>|m| \<le> l\<close>
  occurs exactly once, and no other pair occurs. The mirrored rows at \<open>m = 0\<close> are
  dropped before the two halves are merged.
\<close>

theorem full_index_once:
  "(cmplx_map_2_full_alm map2alm X lmax = Inr alm \<longrightarrow>
      map fst alm = full_lm lmax
      \<and> count_list (map fst alm) (l, m) = (if 0 \<le> l \<and> l \<le> lmax \<and> \<bar>m\<bar> \<le> l then 1 else 0))
   \<and> (syn_full_alm synalm g Cls lmax_arg = Inr (alm', g') \<longrightarrow>
      map fst alm' = full_lm (default_lmax Cls lmax_arg)
      \<and> count_list (map fst alm') (l, m) =
          (if 0 \<le> l \<and> l \<le> default_lmax Cls lmax_arg \<and> \<bar>m\<bar> \<le> l then 1 else 0))"
  by (simp add: analyzer_keys syn_full_alm_keys count_full_lm)

theorem full_index_once_witness:
  "cmplx_map_2_full_alm example_map2alm [(Fin 1, Fin 2)] 1 =
     Inr [((0, 0), Some (Complex 1 2)), ((1, - 1), Some (Complex (- 4) (- 3))),
          ((1, 0), Some (Complex 2 4)), ((1, 1), Some (Complex 0 5))]
   \<and> syn_full_alm example_synalm 0 [1, 2] None =
     Inr ([((0, 0), Some (Complex (1 / 2) (3 / 2))), ((1, - 1), Some (Complex (- 3) 0)),
           ((1, 0), Some (Complex 1 2)), ((1, 1), Some (Complex (- 1) 4))], 2)
   \<and> full_lm 1 = [(0, 0), (1, - 1), (1, 0), (1, 1)]
   \<and> count_list [(0, 0), (1, - 1), (1, 0), (1, 1)] (1, - 1 :: int) = (1 :: nat)"
proof -
  let ?A = "[((0, 0), Some (Complex 1 2)), ((1, - 1), Some (Complex (- 4) (- 3))),
          ((1, 0), Some (Complex 2 4)), ((1, 1), Some (Complex 0 5))]"
  let ?B = "[((0, 0), Some (Complex (1 / 2) (3 / 2))), ((1, - 1), Some (Complex (- 3) 0)),
           ((1, 0), Some (Complex 1 2)), ((1, 1), Some (Complex (- 1) 4))]"
  have a: "cmplx_map_2_full_alm example_map2alm [(Fin 1, Fin 2)] 1 = Inr ?A"
    by code_simp
  have b: "syn_full_alm example_synalm 0 [1, 2] None = Inr (?B, 2)"
    by code_simp
  from full_index_once [of example_map2alm "[(Fin 1, Fin 2)]" 1 ?A 1 "- 1" example_synalm 0 "[1, 2]" None ?B 2] a b
  show ?thesis
    by (simp add: default_lmax_def)
qed

section \<open>Values of the analysed coefficient set\<close>

lemma map_of_sort_key:
  assumes "distinct (map fst xs)"
  shows "map_of (sort_key fst xs) = map_of xs"
proof -
  have "distinct (map fst (sort_key fst xs))"
    using assms by (simp add: map_sort_key)
  then show ?thesis
    using assms by (simp add: map_of_inject_set)
qed

lemma half_2_full_entries:
  assumes "half_2_full (getlm lmax) arr = Inr s"
    and "((l, m), a) \<in> set (zip (getlm lmax) arr)"
  shows "map_of s (l, m) = Some a"
    and "m \<noteq> 0 \<Longrightarrow> map_of s (l, - m) = Some (np_mul (np_conj a) (Some ((- 1) ^ nat m)))"
proof -
  let ?lm = "getlm lmax"
  let ?neg = "map (\<lambda>((l, m), a). ((l, - m), np_mul (np_conj a) (Some ((- 1) ^ nat m)))) (zip ?lm arr)"
  have len: "length arr = length ?lm"
    using assms(1) by (rule half_2_full_length)
  have s: "s = sort_key fst (zip ?lm arr @ filter (\<lambda>(k, v). snd k \<noteq> 0) ?neg)"
    using assms(1) by (simp add: half_2_full_rows [OF len] split: if_splits)
  have "map fst s = full_lm lmax"
    by (simp add: half_2_full_keys [OF assms(1)] merged_index)
  then have dist: "distinct (map fst s)"
    by (simp add: distinct_full_lm)
  have "((l, m), a) \<in> set s"
    unfolding s using assms(2) by simp
  with dist show "map_of s (l, m) = Some a"
    by simp
  assume "m \<noteq> 0"
  with assms(2) have "((l, - m), np_mul (np_conj a) (Some ((- 1) ^ nat m))) \<in> set s"
    unfolding s by (force simp: image_iff)
  with dist show "map_of s (l, - m) = Some (np_mul (np_conj a) (Some ((- 1) ^ nat m)))"
    by simp
qed

lemma map_of_binop_same:
  assumes "map fst a = map fst b" "distinct (map fst a)"
    and "map_of a k = Some x" "map_of b k = Some y"
  shows "map_of (series_binop f a b) k = Some (f x y)"
proof -
  from assms(1) have "length a = length b"
    by (rule map_eq_imp_length_eq)
  then have "map fst a = map fst b \<Longrightarrow> distinct (map fst a) \<Longrightarrow> map_of a k = Some x \<Longrightarrow>
      map_of b k = Some y \<Longrightarrow>
      map_of (map (\<lambda>((k, x), (k', y)). (k, f x y)) (zip a b)) k = Some (f x y)"
    by (induction a b rule: list_induct2) (auto split: if_splits)
  with assms show ?thesis
    by (simp add: binop_same_index)
qed

lemma map_of_smap: "map_of (smap f s) k = map_option f (map_of s k)"
  by (simp add: smap_def map_of_map)

lemma analyzer_entries:
  assumes "cmplx_map_2_full_alm map2alm X lmax = Inr alm"
    and "map2alm (fst (masked_parts X)) lmax = Inr real_alm"
    and "map2alm (snd (masked_parts X)) lmax = Inr imag_alm"
    and "((l, m), (r, i)) \<in> set (zip (getlm lmax) (zip real_alm imag_alm))"
  shows "map_of alm (l, m) = Some (np_add r (np_mul (Some \<i>) i))"
    and "m \<noteq> 0 \<Longrightarrow> map_of alm (l, - m) =
           Some (np_add (np_mul (np_conj r) (Some ((- 1) ^ nat m)))
                        (np_mul (Some \<i>) (np_mul (np_conj i) (Some ((- 1) ^ nat m)))))"
proof -
  from assms(1,2,3) obtain alm_real alm_imag
    where re: "half_2_full (getlm lmax) real_alm = Inr alm_real"
      and im: "half_2_full (getlm lmax) imag_alm = Inr alm_imag"
      and alm: "alm = series_binop np_add alm_real (smap (np_mul (Some \<i>)) alm_imag)"
    by (auto simp: cmplx_map_2_full_alm_def Let_def case_prod_unfold split: sum.splits)
  have keys: "map fst alm_real = map fst (smap (np_mul (Some \<i>)) alm_imag)"
    by (simp add: fst_smap half_2_full_keys [OF re] half_2_full_keys [OF im])
  have dist: "distinct (map fst alm_real)"
    by (simp add: half_2_full_keys [OF re] merged_index distinct_full_lm)
  from assms(4) have mr: "((l, m), r) \<in> set (zip (getlm lmax) real_alm)"
    and mi: "((l, m), i) \<in> set (zip (getlm lmax) imag_alm)"
    by (auto dest: zip3_member)
  show "map_of alm (l, m) = Some (np_add r (np_mul (Some \<i>) i))"
    unfolding alm
    by (rule map_of_binop_same [OF keys dist])
      (simp_all add: map_of_smap half_2_full_entries(1) [OF re mr] half_2_full_entries(1) [OF im mi])
  assume "m \<noteq> 0"
  then show "map_of alm (l, - m) =
           Some (np_add (np_mul (np_conj r) (Some ((- 1) ^ nat m)))
                        (np_mul (Some \<i>) (np_mul (np_conj i) (Some ((- 1) ^ nat m)))))"
    unfolding alm
    by (intro map_of_binop_same [OF keys dist])
      (simp_all add: map_of_smap half_2_full_entries(2) [OF re mr] half_2_full_entries(2) [OF im mi])
qed

lemma imag_part_zero:
  assumes "list_all (\<lambda>p. np_imag p = Fin 0) R"
  shows "snd (masked_parts R) = \<lparr>ma_data = replicate (length R) (Fin 0), ma_mask = map np_isnan R\<rparr>"
proof -
  from assms have "map np_imag R = replicate (length R) (Fin 0)"
    by (induction R) auto
  then show ?thesis
    by (simp add: masked_parts_def Let_def)
qed

lemma unmasked_sum_zero: "unmasked_sum \<lparr>ma_data = replicate n (Fin 0), ma_mask = msk\<rparr> = 0"
proof -
  have "sum_list (map (\<lambda>(x, b). if b then 0 else (case x of Fin r \<Rightarrow> r | PInf \<Rightarrow> 0 | NInf \<Rightarrow> 0 | NaN \<Rightarrow> 0))
          (zip (replicate n (Fin 0)) msk)) = (0 :: real)"
    by (induction n arbitrary: msk) (auto simp: zip_Cons1 split: list.splits)
  then show ?thesis
    by (simp add: unmasked_sum_def)
qed

text \<open>
  C3. Let \<open>R\<close> be a real-valued map (the imaginary part of every pixel is zero), and let
  the analysis answer zero coefficients on a map of zeros. Then, for \<open>0 < m \<le> l \<le> lmax\<close>,
  the full coefficient set that \<^verbatim>\<open>cmplx_map_2_full_alm\<close> returns holds at \<open>(l, -m)\<close> the
  value \<open>(-1)\<^sup>m conj(a)\<close>, where \<open>a\<close> is its value at \<open>(l, m)\<close> (NaN where \<open>a\<close> is NaN).
\<close>

theorem real_map_conjugate_symmetry:
  assumes "cmplx_map_2_full_alm map2alm R lmax = Inr alm"
    and "list_all (\<lambda>p. np_imag p = Fin 0) R"
    and "\<And>n msk. map2alm \<lparr>ma_data = replicate n (Fin 0), ma_mask = msk\<rparr> lmax =
           Inr (replicate (length (getlm lmax)) (Some 0))"
    and "0 < m" "m \<le> l" "l \<le> lmax"
  shows "\<exists>a. map_of alm (l, m) = Some a
           \<and> map_of alm (l, - m) = Some (np_mul (Some ((- 1) ^ nat m)) (np_conj a))"
proof -
  let ?n = "length (getlm lmax)"
  have im: "map2alm (snd (masked_parts R)) lmax = Inr (replicate ?n (Some (0 :: complex)))"
    by (simp only: imag_part_zero [OF assms(2)] assms(3))
  from assms(1) obtain real_alm where re: "map2alm (fst (masked_parts R)) lmax = Inr real_alm"
    by (auto simp: cmplx_map_2_full_alm_def Let_def case_prod_unfold split: sum.splits)
  from assms(1) re im obtain alm_real where "half_2_full (getlm lmax) real_alm = Inr alm_real"
    by (auto simp: cmplx_map_2_full_alm_def Let_def case_prod_unfold split: sum.splits)
  then have len: "length real_alm = ?n"
    by (rule half_2_full_length)
  from assms(4,5,6) have mem: "(l, m) \<in> set (getlm lmax)"
    by (simp add: set_getlm)
  from len have "?n = length (zip real_alm (replicate ?n (Some (0 :: complex))))"
    by simp
  from in_set_impl_in_set_zip1 [OF this mem] obtain v
    where v: "((l, m), v) \<in> set (zip (getlm lmax) (zip real_alm (replicate ?n (Some (0 :: complex)))))"
    by blast
  obtain r i where [simp]: "v = (r, i)"
    by (cases v)
  from v have "i \<in> set (replicate ?n (Some (0 :: complex)))"
    by (auto dest!: set_zip_rightD)
  then have i: "i = Some 0"
    by simp
  from v have row: "((l, m), (r, Some (0 :: complex))) \<in> set (zip (getlm lmax) (zip real_alm (replicate ?n (Some (0 :: complex)))))"
    by (simp add: i)
  from assms(4) have "m \<noteq> 0"
    by simp
  have "map_of alm (l, m) = Some r"
    using analyzer_entries(1) [OF assms(1) re im row] by (cases r) (simp_all add: np_add_def np_mul_def)
  moreover have "map_of alm (l, - m) = Some (np_mul (Some ((- 1) ^ nat m)) (np_conj r))"
    using analyzer_entries(2) [OF assms(1) re im row \<open>m \<noteq> 0\<close>]
    by (cases r) (simp_all add: np_add_def np_mul_def np_conj_def)
  ultimately show ?thesis
    by blast
qed

theorem real_map_conjugate_symmetry_witness:
  "cmplx_map_2_full_alm example_map2alm [(Fin 1, Fin 0), (Fin 2, Fin 0)] 1 =
     Inr [((0, 0), Some (Complex 3 0)), ((1, - 1), Some (Complex (- 6) 3)),
          ((1, 0), Some (Complex 6 0)), ((1, 1), Some (Complex 6 3))]
   \<and> list_all (\<lambda>p. np_imag p = Fin 0) [(Fin 1, Fin 0), (Fin 2, Fin 0)]
   \<and> (\<exists>a. map_of [((0 :: int, 0 :: int), Some (Complex 3 0)), ((1, - 1), Some (Complex (- 6) 3)),
                   ((1, 0), Some (Complex 6 0)), ((1, 1), Some (Complex 6 3))] (1, 1) = Some a
          \<and> map_of [((0 :: int, 0 :: int), Some (Complex 3 0)), ((1, - 1), Some (Complex (- 6) 3)),
                   ((1, 0), Some (Complex 6 0)), ((1, 1), Some (Complex 6 3))] (1, - 1) =
              Some (np_mul (Some ((- 1) ^ nat 1)) (np_conj a)))"
proof -
  let ?A = "[((0 :: int, 0 :: int), Some (Complex 3 0)), ((1, - 1), Some (Complex (- 6) 3)),
          ((1, 0), Some (Complex 6 0)), ((1, 1), Some (Complex 6 3))]"
  have a: "cmplx_map_2_full_alm example_map2alm [(Fin 1, Fin 0), (Fin 2, Fin 0)] 1 = Inr ?A"
    by code_simp
  have r: "list_all (\<lambda>p. np_imag p = Fin 0) [(Fin 1, Fin 0), (Fin 2, Fin 0)]"
    by (simp add: np_imag_def)
  have z: "example_map2alm \<lparr>ma_data = replicate n (Fin 0), ma_mask = msk\<rparr> 1 =
      Inr (replicate (length (getlm 1)) (Some 0))" for n msk
    unfolding example_map2alm_def unmasked_sum_zero getlm_1
    by (simp add: complex_eq_iff)
  have "\<exists>a. map_of ?A (1, 1) = Some a
      \<and> map_of ?A (1, - 1) = Some (np_mul (Some ((- 1) ^ nat 1)) (np_conj a))"
    by (rule real_map_conjugate_symmetry [OF a r z]) simp_all
  with a r show ?thesis
    by (intro conjI)
qed

section \<open>The split in \<^verbatim>\<open>full_alm_2_cmplx_map\<close>\<close>

lemma map_of_binop:
  assumes "distinct (map fst a)" "map_of a k = Some x" "map_of b k = Some y"
  shows "map_of (series_binop f a b) k = Some (f x y)"
proof (cases "map fst a = map fst b")
  case True
  then show ?thesis
    using assms by (rule map_of_binop_same)
next
  case False
  from assms(2) have "k \<in> set (sort (remdups (map fst a @ map fst b)))"
    by (auto dest: map_of_SomeD intro: rev_image_eqI)
  then have "map_of (map (\<lambda>k. (k, f (lookup a k) (lookup b k))) (sort (remdups (map fst a @ map fst b)))) k
      = Some (f (lookup a k) (lookup b k))"
    by (simp add: map_of_map_restrict)
  with False assms(2,3) show ?thesis
    by (simp add: series_binop_def lookup_def)
qed

lemma keys_numbers: "map fst (numbers rows) = map fst rows"
  by (induction rows) (auto simp: numbers_def)

lemma signed_rows_keys:
  "length ms = length xs \<Longrightarrow>
   map fst (map (\<lambda>(m, (k, v)). (k, g m v)) (zip ms xs)) = map fst xs"
  by (induction ms xs rule: list_induct2) auto

lemma mirror_term_keys: "map fst (mirror_term alm) = sort (map (\<lambda>(l, m). (l, - m)) (map fst alm))"
proof -
  have "length (map (\<lambda>(k, v). snd k) alm) = length (alnegm_of alm)"
    by (simp add: alnegm_of_def)
  then have "map fst (map (\<lambda>(m, (k, v)). (k, np_mul (Some ((- 1) ^ nat \<bar>m\<bar>)) (np_conj v)))
      (zip (map (\<lambda>(k, v). snd k) alm) (alnegm_of alm))) = map fst (alnegm_of alm)"
    by (rule signed_rows_keys)
  moreover have "map fst (alnegm_of alm) = sort (map (\<lambda>(l, m). (l, - m)) (map fst alm))"
    by (simp add: alnegm_of_def map_sort_key comp_def case_prod_unfold)
  ultimately show ?thesis
    by (simp add: mirror_term_def)
qed


lemma mirror_term_values:
  assumes "(k, v) \<in> set (mirror_term (numbers rows))"
  shows "\<exists>z. v = Some z"
proof -
  from assms obtain m k' v' where kv: "(m, (k', v')) \<in> set (zip (map (\<lambda>(k, v). snd k) (numbers rows))
        (alnegm_of (numbers rows)))"
    and v: "v = np_mul (Some ((- 1) ^ nat \<bar>m\<bar>)) (np_conj v')"
    by (auto simp: mirror_term_def)
  from kv have "(k', v') \<in> set (alnegm_of (numbers rows))"
    by (rule set_zip_rightD)
  then obtain z where "v' = Some z"
    by (auto simp: alnegm_of_def numbers_def)
  with v show ?thesis
    by (simp add: np_mul_def np_conj_def)
qed

lemma mirrored_full_lm: "(\<lambda>(l, m). (l, - m)) ` set (full_lm lmax) = set (full_lm lmax)"
proof -
  have "(\<lambda>(l, m). (l, - m)) ` set (full_lm lmax) \<subseteq> set (full_lm lmax)" (is "?f ` ?S \<subseteq> ?S")
    by (auto simp: set_full_lm)
  moreover have "?S \<subseteq> ?f ` ?S"
  proof
    fix k assume k: "k \<in> ?S"
    then have "?f k \<in> ?S"
      by (auto simp: set_full_lm)
    moreover have "k = ?f (?f k)"
      by (cases k) simp
    ultimately show "k \<in> ?f ` ?S"
      by (rule rev_image_eqI)
  qed
  ultimately show ?thesis
    by blast
qed

lemma mirror_term_entry:
  assumes "sort (map fst rows) = full_lm lmax" "k \<in> set (map fst rows)"
  shows "\<exists>s. map_of (mirror_term (numbers rows)) k = Some (Some s)"
proof -
  have "set (map fst (mirror_term (numbers rows))) = (\<lambda>(l, m). (l, - m)) ` set (sort (map fst rows))"
    by (simp only: mirror_term_keys keys_numbers set_map set_sort)
  also have "\<dots> = set (sort (map fst rows))"
    unfolding assms(1) by (rule mirrored_full_lm)
  finally have "k \<in> fst ` set (mirror_term (numbers rows))"
    using assms(2) by simp
  then obtain v where "map_of (mirror_term (numbers rows)) k = Some v"
    by (metis map_of_eq_None_iff not_Some_eq)
  moreover from this have "(k, v) \<in> set (mirror_term (numbers rows))"
    by (rule map_of_SomeD)
  then obtain z where "v = Some z"
    by (auto dest: mirror_term_values)
  ultimately show ?thesis
    by simp
qed

text \<open>
  Both components add the same mirror term, whatever it is: on a full coefficient set of
  numbers, its rows in any order, the components are numbers \<open>r\<close> and \<open>i\<close> with \<open>r + i*i\<close>
  equal to the value of \<open>alm\<close> at the label.
\<close>

lemma split_identity:
  assumes "sort (map fst rows) = full_lm lmax"
    and "((l, m), a) \<in> set rows"
  shows "\<exists>r i. map_of (re_alm_of (numbers rows)) (l, m) = Some (Some r)
           \<and> map_of (im_alm_of (numbers rows)) (l, m) = Some (Some i)
           \<and> r + \<i> * i = a"
proof -
  let ?alm = "numbers rows"
  have "distinct (sort (map fst rows))"
    unfolding assms(1) by (rule distinct_full_lm)
  then have dist: "distinct (map fst ?alm)"
    by (simp add: keys_numbers)
  from assms(2) have "((l, m), Some a) \<in> set ?alm"
    by (auto simp: numbers_def intro: rev_image_eqI)
  with dist have alm: "map_of ?alm (l, m) = Some (Some a)"
    by simp
  then have neg: "map_of (smap np_neg ?alm) (l, m) = Some (Some (- a))"
    by (simp add: map_of_smap np_neg_def)
  from dist have dneg: "distinct (map fst (smap np_neg ?alm))"
    by (simp add: fst_smap)
  from assms(2) have "(l, m) \<in> set (map fst rows)"
    by (auto intro: rev_image_eqI)
  from mirror_term_entry [OF assms(1) this] obtain s
    where s: "map_of (mirror_term ?alm) (l, m) = Some (Some s)"
    by blast
  have "map_of (re_alm_of ?alm) (l, m) = Some (Some (1 / 2 * (a + s)))"
    by (simp add: re_alm_of_def map_of_smap map_of_binop [OF dist alm s] np_add_def np_mul_def)
  moreover have "map_of (im_alm_of ?alm) (l, m) = Some (Some (\<i> / 2 * (- a + s)))"
    by (simp add: im_alm_of_def map_of_smap map_of_binop [OF dneg neg s] np_add_def np_mul_def)
  moreover have "1 / 2 * (a + s) + \<i> * (\<i> / 2 * (- a + s)) = a"
    by (simp add: complex_eq_iff field_simps)
  ultimately show ?thesis
    by blast
qed

lemma sorted_mirror_index: "sort (map (\<lambda>(l, m). (l, - m)) (full_lm lmax)) = full_lm lmax"
proof -
  have "distinct (map (\<lambda>(l, m). (l, - m)) (full_lm lmax))"
    using distinct_full_lm [of lmax] by (auto simp: distinct_map inj_on_def)
  then have "sorted_wrt (<) (sort (map (\<lambda>(l, m). (l, - m)) (full_lm lmax)))"
    by (simp add: strict_sorted_iff)
  moreover have "set (sort (map (\<lambda>(l, m). (l, - m)) (full_lm lmax))) = set (full_lm lmax)"
    by (simp only: set_sort set_map mirrored_full_lm)
  ultimately show ?thesis
    using sorted_full_lm by (metis strict_sorted_equal)
qed

lemma signed_rows_aligned:
  "map fst xs = map fst ys \<Longrightarrow>
   map (\<lambda>(m, (k, v)). (k, g m v)) (zip (map (\<lambda>(k, v). snd k) xs) ys) =
   map (\<lambda>(k, v). (k, g (snd k) v)) ys"
proof -
  assume keys: "map fst xs = map fst ys"
  then have "length xs = length ys"
    by (rule map_eq_imp_length_eq)
  then show ?thesis
    using keys by (induction xs ys rule: list_induct2) auto
qed

lemma map_of_mirrored:
  fixes s :: "lm series"
  shows "map_of (map (\<lambda>((l, m), v). ((l, - m), v)) s) (l, m) = map_of s (l, - m)"
  by (induction s) auto

lemma distinct_mirrored:
  fixes ks :: "lm list"
  shows "distinct ks \<Longrightarrow> distinct (map (\<lambda>(l, m). (l, - m)) ks)"
  by (auto simp: distinct_map inj_on_def)

lemma map_of_keyed: "map_of (map (\<lambda>(k, v). (k, h k v)) xs) k = map_option (h k) (map_of xs k)"
  by (induction xs) auto

lemma mirror_term_sorted:
  assumes "map fst rows = full_lm lmax" "((l, - m), a') \<in> set rows"
  shows "map_of (mirror_term (numbers rows)) (l, m) = Some (Some ((- 1) ^ nat \<bar>m\<bar> * cnj a'))"
proof -
  let ?alm = "numbers rows"
  let ?neg = "map (\<lambda>((l, m), v). ((l, - m), v)) ?alm"
  have dist: "distinct (map fst ?alm)"
    by (simp add: keys_numbers assms(1) distinct_full_lm)
  have kneg: "map fst ?neg = map (\<lambda>(l, m). (l, - m)) (map fst ?alm)"
    by (simp add: comp_def case_prod_unfold)
  have dneg: "distinct (map fst ?neg)"
    unfolding kneg using dist by (rule distinct_mirrored)
  have "map fst (alnegm_of ?alm) = sort (map (\<lambda>(l, m). (l, - m)) (map fst ?alm))"
    by (simp add: alnegm_of_def map_sort_key comp_def case_prod_unfold)
  then have "map fst ?alm = map fst (alnegm_of ?alm)"
    by (simp add: keys_numbers assms(1) sorted_mirror_index)
  then have S: "mirror_term ?alm =
      map (\<lambda>(k, v). (k, np_mul (Some ((- 1) ^ nat \<bar>snd k\<bar>)) (np_conj v))) (alnegm_of ?alm)"
    unfolding mirror_term_def by (rule signed_rows_aligned)
  from assms(2) have "((l, - m), Some a') \<in> set ?alm"
    by (auto simp: numbers_def intro: rev_image_eqI)
  with dist have "map_of ?alm (l, - m) = Some (Some a')"
    by simp
  then have "map_of (alnegm_of ?alm) (l, m) = Some (Some a')"
    by (simp add: alnegm_of_def map_of_sort_key [OF dneg] map_of_mirrored)
  then show ?thesis
    unfolding S by (simp add: map_of_keyed np_mul_def np_conj_def)
qed

text \<open>
  On a full coefficient set in the order of its index, the two components are the ones
  of lines 284 and 285.
\<close>

lemma split_components_sorted:
  assumes "map fst rows = full_lm lmax"
    and "((l, m), a) \<in> set rows" "((l, - m), a') \<in> set rows"
  shows "map_of (re_alm_of (numbers rows)) (l, m) =
           Some (Some (1 / 2 * (a + (- 1) ^ nat \<bar>m\<bar> * cnj a')))"
    and "map_of (im_alm_of (numbers rows)) (l, m) =
           Some (Some (\<i> / 2 * (- a + (- 1) ^ nat \<bar>m\<bar> * cnj a')))"
proof -
  let ?alm = "numbers rows"
  have dist: "distinct (map fst ?alm)"
    by (simp add: keys_numbers assms(1) distinct_full_lm)
  from assms(2) have "((l, m), Some a) \<in> set ?alm"
    by (auto simp: numbers_def intro: rev_image_eqI)
  with dist have alm: "map_of ?alm (l, m) = Some (Some a)"
    by simp
  then have neg: "map_of (smap np_neg ?alm) (l, m) = Some (Some (- a))"
    by (simp add: map_of_smap np_neg_def)
  from dist have dneg: "distinct (map fst (smap np_neg ?alm))"
    by (simp add: fst_smap)
  note s = mirror_term_sorted [OF assms(1,3)]
  show "map_of (re_alm_of ?alm) (l, m) = Some (Some (1 / 2 * (a + (- 1) ^ nat \<bar>m\<bar> * cnj a')))"
    by (simp add: re_alm_of_def map_of_smap map_of_binop [OF dist alm s] np_add_def np_mul_def)
  show "map_of (im_alm_of ?alm) (l, m) = Some (Some (\<i> / 2 * (- a + (- 1) ^ nat \<bar>m\<bar> * cnj a')))"
    by (simp add: im_alm_of_def map_of_smap map_of_binop [OF dneg neg s] np_add_def np_mul_def)
qed

text \<open>
  C2. Let \<open>alm\<close> be a full coefficient set of numbers: its labels are the pairs \<open>(l, m)\<close>
  with \<open>0 \<le> l \<le> lmax\<close> and \<open>|m| \<le> l\<close>, each once, and no symmetry between the values
  is asked for. At every label \<open>(l, m)\<close>, with \<open>a\<close> the value of \<open>alm\<close> there and \<open>a'\<close> its
  value at \<open>(l, - m)\<close>, the two components that \<^verbatim>\<open>full_alm_2_cmplx_map\<close> derives (lines 284
  and 285) are numbers \<open>r\<close> and \<open>i\<close> with \<open>r + i*i = a\<close>; and when the rows of \<open>alm\<close> are in the
  order of the index, by \<open>l\<close> and then by \<open>m\<close>, as \<^verbatim>\<open>cmplx_map_2_full_alm\<close> and
  \<^verbatim>\<open>syn_full_alm\<close> return them, the components are \<open>r = 1/2 (a + (-1)^|m| conj a')\<close> and
  \<open>i = i/2 (- a + (-1)^|m| conj a')\<close>.
\<close>

theorem split_inverts_combination:
  assumes "sort (map fst rows) = full_lm lmax"
    and "((l, m), a) \<in> set rows" "((l, - m), a') \<in> set rows"
  shows "\<exists>r i. map_of (re_alm_of (numbers rows)) (l, m) = Some (Some r)
           \<and> map_of (im_alm_of (numbers rows)) (l, m) = Some (Some i)
           \<and> r + \<i> * i = a
           \<and> (map fst rows = full_lm lmax \<longrightarrow>
                r = 1 / 2 * (a + (- 1) ^ nat \<bar>m\<bar> * cnj a')
              \<and> i = \<i> / 2 * (- a + (- 1) ^ nat \<bar>m\<bar> * cnj a'))"
proof -
  from split_identity [OF assms(1,2)] obtain r i
    where re: "map_of (re_alm_of (numbers rows)) (l, m) = Some (Some r)"
      and im: "map_of (im_alm_of (numbers rows)) (l, m) = Some (Some i)"
      and sum: "r + \<i> * i = a"
    by blast
  have "r = 1 / 2 * (a + (- 1) ^ nat \<bar>m\<bar> * cnj a')
      \<and> i = \<i> / 2 * (- a + (- 1) ^ nat \<bar>m\<bar> * cnj a')"
    if "map fst rows = full_lm lmax"
    using split_components_sorted [OF that assms(2,3)] re im by simp
  with re im sum show ?thesis
    by blast
qed

text \<open>
  The rows in another order: the sign \<open>(-1)^|m|\<close> is read by position from the rows of \<open>alm\<close>
  and multiplied into the mirrored copy, which is sorted. With the rows \<open>(1, 1)\<close>, \<open>(0, 0)\<close>,
  \<open>(1, - 1)\<close>, \<open>(1, 0)\<close> the signs are \<open>-1, 1, -1, 1\<close> against the sorted labels \<open>(0, 0)\<close>,
  \<open>(1, - 1)\<close>, \<open>(1, 0)\<close>, \<open>(1, 1)\<close>, and the real component at \<open>(0, 0)\<close> is \<open>1/2 (2 - 2) = 0\<close>,
  where the formula gives \<open>1/2 (2 + 2) = 2\<close>.
\<close>

theorem unsorted_rows_counterexample:
  "sort (map fst [((1 :: int, 1 :: int), 1 :: complex), ((0, 0), 2), ((1, - 1), \<i>), ((1, 0), 3)]) = full_lm 1
   \<and> map_of (re_alm_of (numbers [((1, 1), 1), ((0, 0), 2), ((1, - 1), \<i>), ((1, 0), 3)])) (0, 0)
       = Some (Some 0)
   \<and> map_of (re_alm_of (numbers [((1, 1), 1), ((0, 0), 2), ((1, - 1), \<i>), ((1, 0), 3)])) (0, 0)
       \<noteq> Some (Some (1 / 2 * (2 + (- 1) ^ nat \<bar>0 :: int\<bar> * cnj 2)))"
proof -
  let ?rows = "[((1 :: int, 1 :: int), 1 :: complex), ((0, 0), 2), ((1, - 1), \<i>), ((1, 0), 3)]"
  have keys: "sort (map fst ?rows) = full_lm 1"
    by code_simp
  have re: "map_of (re_alm_of (numbers ?rows)) (0, 0) = Some (Some 0)"
    by (simp add: re_alm_of_def mirror_term_def alnegm_of_def numbers_def series_binop_def
        smap_def lookup_def np_add_def np_mul_def np_conj_def less_eq_prod_def less_prod_def)
  from keys re show ?thesis
    by simp
qed

theorem split_inverts_combination_witness:
  "sort (map fst [((0 :: int, 0 :: int), 2 :: complex), ((1, - 1), \<i>), ((1, 0), 3), ((1, 1), 1)]) = full_lm 1
   \<and> map fst [((0 :: int, 0 :: int), 2 :: complex), ((1, - 1), \<i>), ((1, 0), 3), ((1, 1), 1)] = full_lm 1
   \<and> map_of (re_alm_of (numbers [((0, 0), 2), ((1, - 1), \<i>), ((1, 0), 3), ((1, 1), 1)])) (1, 1)
       = Some (Some (Complex (1 / 2) (1 / 2)))
   \<and> map_of (im_alm_of (numbers [((0, 0), 2), ((1, - 1), \<i>), ((1, 0), 3), ((1, 1), 1)])) (1, 1)
       = Some (Some (Complex (- (1 / 2)) (- (1 / 2))))
   \<and> Complex (1 / 2) (1 / 2) + \<i> * Complex (- (1 / 2)) (- (1 / 2)) = 1"
proof -
  let ?rows = "[((0 :: int, 0 :: int), 2 :: complex), ((1, - 1), \<i>), ((1, 0), 3), ((1, 1), 1)]"
  have idx: "map fst ?rows = full_lm 1"
    by code_simp
  have keys: "sort (map fst ?rows) = full_lm 1"
    by code_simp
  have pos: "((1, 1), 1) \<in> set ?rows" and neg: "((1, - 1), \<i>) \<in> set ?rows"
    by simp_all
  from split_inverts_combination [OF keys pos neg] idx obtain r i
    where "map_of (re_alm_of (numbers ?rows)) (1, 1) = Some (Some r)"
      and "map_of (im_alm_of (numbers ?rows)) (1, 1) = Some (Some i)"
      and "r = 1 / 2 * (1 + (- 1) ^ nat \<bar>1 :: int\<bar> * cnj \<i>)"
      and "i = \<i> / 2 * (- 1 + (- 1) ^ nat \<bar>1 :: int\<bar> * cnj \<i>)"
    by blast
  moreover have "1 / 2 * (1 + (- 1) ^ nat \<bar>1 :: int\<bar> * cnj \<i>) = Complex (1 / 2) (1 / 2)"
    by (simp add: complex_eq_iff)
  moreover have "\<i> / 2 * (- 1 + (- 1) ^ nat \<bar>1 :: int\<bar> * cnj \<i>) = Complex (- (1 / 2)) (- (1 / 2))"
    by (simp add: complex_eq_iff)
  ultimately have vals: "map_of (re_alm_of (numbers ?rows)) (1, 1) = Some (Some (Complex (1 / 2) (1 / 2)))
      \<and> map_of (im_alm_of (numbers ?rows)) (1, 1) = Some (Some (Complex (- (1 / 2)) (- (1 / 2))))"
    by simp
  have sum: "Complex (1 / 2) (1 / 2) + \<i> * Complex (- (1 / 2)) (- (1 / 2)) = 1"
    by (simp add: complex_eq_iff)
  from idx keys vals sum show ?thesis
    by simp
qed

section \<open>Analysis followed by synthesis\<close>

lemma numbers_the:
  "\<forall>(k, v) \<in> set s. v \<noteq> None \<Longrightarrow> numbers (map (\<lambda>(k, v). (k, the v)) s) = s"
  by (induction s) (auto simp: numbers_def)

lemma eq_by_keys:
  assumes "map fst xs = map fst ys" "distinct (map fst xs)"
    and "\<And>k v. (k, v) \<in> set xs \<Longrightarrow> map_of ys k = Some v"
  shows "xs = ys"
proof -
  from assms(1) have "length xs = length ys"
    by (rule map_eq_imp_length_eq)
  then show ?thesis
    using assms
  proof (induction xs ys rule: list_induct2)
    case Nil
    then show ?case by simp
  next
    case (Cons x xs y ys)
    from Cons.prems(1) have k: "fst x = fst y" and ks: "map fst xs = map fst ys"
      by simp_all
    have "(fst x, snd x) \<in> set (x # xs)"
      by simp
    from Cons.prems(3) [OF this] k have "snd y = snd x"
      by (cases y) simp
    with k have "x = y"
      by (simp add: prod_eq_iff)
    moreover have "xs = ys"
    proof (rule Cons.IH [OF ks])
      show "distinct (map fst xs)"
        using Cons.prems(2) by simp
      fix k v assume kv: "(k, v) \<in> set xs"
      then have "k \<noteq> fst y"
        using Cons.prems(2) k by (force simp: image_iff)
      with Cons.prems(3) [of k v] kv show "map_of ys k = Some v"
        by (cases y) (auto split: if_splits)
    qed
    ultimately show ?case
      by simp
  qed
qed

lemma sorted_swapped_getlm: "sorted_wrt (<) (map (\<lambda>(l, m). (m, l)) (getlm lmax))"
proof -
  have "map (\<lambda>(l, m). (m, l)) (getlm lmax) = concat (map (\<lambda>m. map (\<lambda>l. (m, l)) [m..lmax]) [0..lmax])"
    by (simp add: getlm_def map_concat comp_def)
  moreover have "sorted_wrt (<) (concat (map (\<lambda>m. map (\<lambda>l. (m, l)) [m..lmax]) [0..lmax]))"
    by (rule sorted_wrt_less_pairs) simp_all
  ultimately show ?thesis
    by simp
qed

lemma bool_index_aligned:
  assumes "map fst x = map fst alm"
  shows "bool_index x (map (\<lambda>(k, v). P k) alm) = Inr (filter (\<lambda>(k, v). P k) x)"
proof -
  from assms have len: "length x = length alm"
    by (rule map_eq_imp_length_eq)
  then have "map fst x = map fst alm \<Longrightarrow>
      map fst (filter snd (zip x (map (\<lambda>(k, v). P k) alm))) = filter (\<lambda>(k, v). P k) x"
    by (induction x alm rule: list_induct2) auto
  with assms len show ?thesis
    by (simp add: bool_index_def)
qed

text \<open>The rows at \<open>m \<ge> 0\<close> of a Series on the full index, sorted by \<open>m\<close>, then \<open>l\<close>.\<close>

lemma to_healpy_rows:
  assumes "map fst alm = full_lm lmax" "map fst x = full_lm lmax"
    and "length arr = length (getlm lmax)"
    and "\<And>k v. (k, v) \<in> set (zip (getlm lmax) arr) \<Longrightarrow> map_of x k = Some v"
  shows "to_healpy alm x = Inr arr"
proof -
  let ?rows = "filter (\<lambda>(k, v). 0 \<le> snd k) x"
  let ?R = "sort_key (\<lambda>(k, v). (snd k, fst k)) ?rows"
  have dx: "distinct (map fst x)"
    by (simp add: assms(2) distinct_full_lm)
  have krows: "map fst ?rows = filter (\<lambda>k. 0 \<le> snd k) (full_lm lmax)"
    unfolding assms(2) [symmetric] by (induction x) auto
  have "map (\<lambda>(l, m). (m, l)) (map fst ?R) = map (\<lambda>(k, v). (snd k, fst k)) ?R"
    by (simp add: comp_def case_prod_unfold)
  also have "\<dots> = sort (map (\<lambda>(k, v). (snd k, fst k)) ?rows)"
    by (rule map_sort_key)
  also have "map (\<lambda>(k, v). (snd k, fst k)) ?rows = map (\<lambda>(l, m). (m, l)) (map fst ?rows)"
    by (simp add: comp_def case_prod_unfold)
  finally have kR: "map (\<lambda>(l, m). (m, l)) (map fst ?R) =
      sort (map (\<lambda>(l, m). (m, l)) (filter (\<lambda>k. 0 \<le> snd k) (full_lm lmax)))"
    by (simp only: krows)
  have "distinct (map (\<lambda>(l, m). (m, l)) (filter (\<lambda>k. 0 \<le> snd k) (full_lm lmax)))"
    by (rule distinct_swapped) (simp add: distinct_full_lm)
  then have "sorted_wrt (<) (sort (map (\<lambda>(l, m). (m, l)) (filter (\<lambda>k. 0 \<le> snd k) (full_lm lmax))))"
    by (simp add: strict_sorted_iff)
  moreover have "set (sort (map (\<lambda>(l, m). (m, l)) (filter (\<lambda>k. 0 \<le> snd k) (full_lm lmax)))) =
      set (map (\<lambda>(l, m). (m, l)) (getlm lmax))"
    by (auto simp: set_full_lm set_getlm image_iff)
  ultimately have "sort (map (\<lambda>(l, m). (m, l)) (filter (\<lambda>k. 0 \<le> snd k) (full_lm lmax))) =
      map (\<lambda>(l, m). (m, l)) (getlm lmax)"
    using sorted_swapped_getlm by (metis strict_sorted_equal)
  with kR have "map (\<lambda>(l, m). (m, l)) (map fst ?R) = map (\<lambda>(l, m). (m, l)) (getlm lmax)"
    by simp
  moreover have "inj (\<lambda>(l :: int, m :: int). (m, l))"
    by (auto simp: inj_on_def)
  ultimately have keys: "map fst ?R = getlm lmax"
    by (simp only: inj_map_eq_map)
  have "zip (getlm lmax) arr = ?R"
  proof (rule eq_by_keys)
    show "map fst (zip (getlm lmax) arr) = map fst ?R"
      using assms(3) by (simp add: keys)
    show "distinct (map fst (zip (getlm lmax) arr))"
      using assms(3) by (simp add: distinct_getlm)
    fix k v assume kv: "(k, v) \<in> set (zip (getlm lmax) arr)"
    then have "map_of x k = Some v"
      by (rule assms(4))
    then have "(k, v) \<in> set x"
      by (rule map_of_SomeD)
    moreover from kv have "k \<in> set (getlm lmax)"
      by (rule set_zip_leftD)
    then have "0 \<le> snd k"
      by (auto simp: set_getlm)
    ultimately have "(k, v) \<in> set ?R"
      by simp
    moreover have "distinct (map fst ?R)"
      by (simp add: keys distinct_getlm)
    ultimately show "map_of ?R k = Some v"
      by simp
  qed
  then have "map snd ?R = arr"
    using assms(3) by (metis map_snd_zip)
  moreover have "bool_index x (map (\<lambda>(k, v). 0 \<le> snd k) alm) = Inr ?rows"
    by (rule bool_index_aligned) (simp add: assms(1,2))
  ultimately show ?thesis
    by (simp add: to_healpy_def)
qed


lemma zip3_map:
  "zip ks (zip (map f xs) (map g ys)) = map (\<lambda>(k, (x, y)). (k, (f x, g y))) (zip ks (zip xs ys))"
proof (induction ks arbitrary: xs ys)
  case Nil
  then show ?case by simp
next
  case (Cons k ks)
  then show ?case
    by (cases xs; cases ys) auto
qed

lemma analyzer_numbers:
  assumes "cmplx_map_2_full_alm map2alm X lmax = Inr alm"
    and "map2alm (fst (masked_parts X)) lmax = Inr (map Some re_arr)"
    and "map2alm (snd (masked_parts X)) lmax = Inr (map Some im_arr)"
    and "((l, m), (r, i)) \<in> set (zip (getlm lmax) (zip re_arr im_arr))"
  shows "map_of alm (l, m) = Some (Some (r + \<i> * i))"
    and "m \<noteq> 0 \<Longrightarrow> map_of alm (l, - m) =
           Some (Some (cnj r * (- 1) ^ nat m + \<i> * (cnj i * (- 1) ^ nat m)))"
proof -
  have "zip (getlm lmax) (zip (map Some re_arr) (map Some im_arr)) =
      map (\<lambda>(k, (x, y)). (k, (Some x, Some y))) (zip (getlm lmax) (zip re_arr im_arr))"
    by (rule zip3_map)
  with assms(4) have row: "((l, m), (Some r, Some i)) \<in>
      set (zip (getlm lmax) (zip (map Some re_arr) (map Some im_arr)))"
    by (force simp: image_iff)
  show "map_of alm (l, m) = Some (Some (r + \<i> * i))"
    using analyzer_entries(1) [OF assms(1,2,3) row] by (simp add: np_add_def np_mul_def)
  assume "m \<noteq> 0"
  then show "map_of alm (l, - m) = Some (Some (cnj r * (- 1) ^ nat m + \<i> * (cnj i * (- 1) ^ nat m)))"
    using analyzer_entries(2) [OF assms(1,2,3) row] by (simp add: np_add_def np_mul_def np_conj_def)
qed

lemma analyzer_lengths:
  assumes "cmplx_map_2_full_alm map2alm X lmax = Inr alm"
    and "map2alm (fst (masked_parts X)) lmax = Inr re"
    and "map2alm (snd (masked_parts X)) lmax = Inr im"
  shows "length re = length (getlm lmax)" "length im = length (getlm lmax)"
proof -
  from assms obtain alm_real alm_imag
    where "half_2_full (getlm lmax) re = Inr alm_real" "half_2_full (getlm lmax) im = Inr alm_imag"
    by (auto simp: cmplx_map_2_full_alm_def Let_def case_prod_unfold split: sum.splits)
  then show "length re = length (getlm lmax)" "length im = length (getlm lmax)"
    by (auto dest: half_2_full_length)
qed

lemma zip3_row:
  assumes "length xs = length ks" "length ys = length ks" "(k, x) \<in> set (zip ks xs)"
  shows "\<exists>y. (k, (x, y)) \<in> set (zip ks (zip xs ys))"
proof -
  from assms(3) obtain j where "j < length ks" "j < length xs" "ks ! j = k" "xs ! j = x"
    by (auto simp: set_zip)
  with assms(1,2) have "(k, (x, ys ! j)) \<in> set (zip ks (zip xs ys))"
    by (force simp: set_zip)
  then show ?thesis ..
qed

lemma zip3_row':
  assumes "length xs = length ks" "length ys = length ks" "(k, y) \<in> set (zip ks ys)"
  shows "\<exists>x. (k, (x, y)) \<in> set (zip ks (zip xs ys))"
proof -
  from assms(3) obtain j where "j < length ks" "j < length ys" "ks ! j = k" "ys ! j = y"
    by (auto simp: set_zip)
  with assms(1,2) have "(k, (xs ! j, y)) \<in> set (zip ks (zip xs ys))"
    by (force simp: set_zip)
  then show ?thesis ..
qed


lemma split_keys:
  assumes "map fst alm = full_lm lmax"
  shows "map fst (re_alm_of alm) = full_lm lmax" "map fst (im_alm_of alm) = full_lm lmax"
proof -
  have k: "map fst alm = map fst (mirror_term alm)"
    by (simp add: mirror_term_keys assms sorted_mirror_index)
  then have "map fst (smap np_neg alm) = map fst (mirror_term alm)"
    by (simp add: fst_smap)
  then show "map fst (im_alm_of alm) = full_lm lmax"
    by (simp add: im_alm_of_def fst_smap keys_binop_same assms)
  from k show "map fst (re_alm_of alm) = full_lm lmax"
    by (simp add: re_alm_of_def fst_smap keys_binop_same assms)
qed

lemma sign_squared: "(- 1 :: complex) ^ n * (- 1) ^ n = 1"
  by (simp add: power_mult_distrib [symmetric])

lemma split_of_analysis:
  assumes out: "cmplx_map_2_full_alm map2alm X lmax = Inr alm"
    and re: "map2alm (fst (masked_parts X)) lmax = Inr (map Some re_arr)"
    and im: "map2alm (snd (masked_parts X)) lmax = Inr (map Some im_arr)"
    and m0re: "m0_real (getlm lmax) (map Some re_arr)"
    and m0im: "m0_real (getlm lmax) (map Some im_arr)"
    and row: "((l, m), (r, i)) \<in> set (zip (getlm lmax) (zip re_arr im_arr))"
  shows "map_of (re_alm_of alm) (l, m) = Some (Some r)"
    and "map_of (im_alm_of alm) (l, m) = Some (Some i)"
proof -
  let ?lm = "getlm lmax"
  have keys: "map fst alm = full_lm lmax"
    using out by (rule analyzer_keys)
  then have dist: "distinct (map fst alm)"
    by (simp add: distinct_full_lm)
  from analyzer_lengths [OF out re im] have lr: "length re_arr = length ?lm"
    and li: "length im_arr = length ?lm"
    by simp_all
  have "False" if mem: "((l', m'), None) \<in> set alm" for l' m'
  proof -
    from mem dist have none: "map_of alm (l', m') = Some None"
      by simp
    from mem have "(l', m') \<in> set (map fst alm)"
      by (force simp: image_iff)
    then have range: "0 \<le> l'" "l' \<le> lmax" "\<bar>m'\<bar> \<le> l'"
      by (simp_all add: keys set_full_lm)
    from lr li have len: "length ?lm = length (zip re_arr im_arr)"
      by simp
    show False
    proof (cases "0 \<le> m'")
      case True
      with range have "(l', m') \<in> set ?lm"
        by (simp add: set_getlm)
      from in_set_impl_in_set_zip1 [OF len this] obtain v
        where "((l', m'), v) \<in> set (zip ?lm (zip re_arr im_arr))"
        by blast
      then show False
        using analyzer_numbers(1) [OF out re im, of l' m' "fst v" "snd v"] none by simp
    next
      case False
      with range have "(l', - m') \<in> set ?lm" and "- m' \<noteq> 0"
        by (simp_all add: set_getlm)
      from in_set_impl_in_set_zip1 [OF len this(1)] obtain v
        where "((l', - m'), v) \<in> set (zip ?lm (zip re_arr im_arr))"
        by blast
      then show False
        using analyzer_numbers(2) [OF out re im, of l' "- m'" "fst v" "snd v"] \<open>- m' \<noteq> 0\<close> none
        by simp
    qed
  qed
  then have some: "\<forall>(k, v) \<in> set alm. v \<noteq> None"
    by (metis (mono_tags, lifting) case_prodI2 surj_pair)
  define rows where "rows = map (\<lambda>(k, v). (k, the v)) alm"
  have alm: "alm = numbers rows"
    unfolding rows_def using some by (rule numbers_the [symmetric])
  have krows: "map fst rows = full_lm lmax"
    using keys by (simp add: alm keys_numbers)
  have in_rows: "(k, z) \<in> set rows" if "map_of alm k = Some (Some z)" for k z
  proof -
    from that have "(k, Some z) \<in> set alm"
      by (rule map_of_SomeD)
    then show ?thesis
      unfolding rows_def by (force simp: image_iff)
  qed
  let ?a = "r + \<i> * i"
  have pos: "((l, m), ?a) \<in> set rows"
    by (rule in_rows) (rule analyzer_numbers(1) [OF out re im row])
  have "map_of (re_alm_of alm) (l, m) = Some (Some r) \<and> map_of (im_alm_of alm) (l, m) = Some (Some i)"
  proof (cases "m = 0")
    case True
    from row have "((l, m), r) \<in> set (zip ?lm re_arr)" "((l, m), i) \<in> set (zip ?lm im_arr)"
      by (auto dest: zip3_member)
    then have "((l, m), Some r) \<in> set (zip ?lm (map Some re_arr))"
      "((l, m), Some i) \<in> set (zip ?lm (map Some im_arr))"
      by (force simp: zip_map2 image_iff)+
    with m0re m0im True have real: "Im r = 0" "Im i = 0"
      by (auto simp: m0_real_def list_all_iff)
    from pos True have neg: "((l, - m), ?a) \<in> set rows"
      by simp
    from split_components_sorted [OF krows pos neg] True real show ?thesis
      by (simp add: alm complex_eq_iff)
  next
    case False
    let ?a' = "cnj r * (- 1) ^ nat m + \<i> * (cnj i * (- 1) ^ nat m)"
    from row have "(l, m) \<in> set ?lm"
      by (rule set_zip_leftD)
    with False have "0 < m"
      by (simp add: set_getlm)
    then have abs: "nat \<bar>m\<bar> = nat m"
      by simp
    have neg: "((l, - m), ?a') \<in> set rows"
      by (rule in_rows) (rule analyzer_numbers(2) [OF out re im row False])
    have "(- 1) ^ nat m * cnj ?a' = r - \<i> * i"
      using sign_squared [of "nat m"] by (simp add: algebra_simps)
    then have "1 / 2 * (?a + (- 1) ^ nat \<bar>m\<bar> * cnj ?a') = r"
      "\<i> / 2 * (- ?a + (- 1) ^ nat \<bar>m\<bar> * cnj ?a') = i"
      by (simp_all only: abs) (simp_all add: complex_eq_iff)
    with split_components_sorted [OF krows pos neg] show ?thesis
      by (simp only: alm)
  qed
  then show "map_of (re_alm_of alm) (l, m) = Some (Some r)"
    and "map_of (im_alm_of alm) (l, m) = Some (Some i)"
    by simp_all
qed


text \<open>
  Splitting what the analysis combined gives back the two half sets, as arrays in
  healpy's order, provided the analysis returned numbers that are real at \<open>m = 0\<close>.
\<close>

lemma analysis_then_split:
  assumes out: "cmplx_map_2_full_alm map2alm X lmax = Inr alm"
    and re: "map2alm (fst (masked_parts X)) lmax = Inr (map Some re_arr)"
    and im: "map2alm (snd (masked_parts X)) lmax = Inr (map Some im_arr)"
    and m0re: "m0_real (getlm lmax) (map Some re_arr)"
    and m0im: "m0_real (getlm lmax) (map Some im_arr)"
  shows "to_healpy alm (re_alm_of alm) = Inr (map Some re_arr)"
    and "to_healpy alm (im_alm_of alm) = Inr (map Some im_arr)"
proof -
  let ?lm = "getlm lmax"
  have keys: "map fst alm = full_lm lmax"
    using out by (rule analyzer_keys)
  from analyzer_lengths [OF out re im] have lr: "length re_arr = length ?lm"
    and li: "length im_arr = length ?lm"
    by simp_all
  show "to_healpy alm (re_alm_of alm) = Inr (map Some re_arr)"
  proof (rule to_healpy_rows [OF keys split_keys(1) [OF keys]])
    show "length (map Some re_arr) = length ?lm"
      using lr by simp
    fix k v assume "(k, v) \<in> set (zip ?lm (map Some re_arr))"
    then obtain r where v: "v = Some r" and "(k, r) \<in> set (zip ?lm re_arr)"
      by (auto simp: zip_map2)
    from zip3_row [OF lr li this(2)] obtain i
      where "(k, (r, i)) \<in> set (zip ?lm (zip re_arr im_arr))"
      by blast
    then show "map_of (re_alm_of alm) k = Some v"
      using split_of_analysis(1) [OF out re im m0re m0im, of "fst k" "snd k" r i] v by simp
  qed
  show "to_healpy alm (im_alm_of alm) = Inr (map Some im_arr)"
  proof (rule to_healpy_rows [OF keys split_keys(2) [OF keys]])
    show "length (map Some im_arr) = length ?lm"
      using li by simp
    fix k v assume "(k, v) \<in> set (zip ?lm (map Some im_arr))"
    then obtain i where v: "v = Some i" and "(k, i) \<in> set (zip ?lm im_arr)"
      by (auto simp: zip_map2)
    from zip3_row' [OF lr li this(2)] obtain r
      where "(k, (r, i)) \<in> set (zip ?lm (zip re_arr im_arr))"
      by blast
    then show "map_of (im_alm_of alm) k = Some v"
      using split_of_analysis(2) [OF out re im m0re m0im, of "fst k" "snd k" r i] v by simp
  qed
qed

text \<open>
  The round trip in exact arithmetic: when the synthesis returns, on the two half sets,
  the real and the imaginary parts of a map of finite pixels (a map that the transform
  pair reproduces), \<^verbatim>\<open>full_alm_2_cmplx_map\<close> after \<^verbatim>\<open>cmplx_map_2_full_alm\<close> returns the map.
\<close>

lemma round_trip_exact:
  assumes out: "cmplx_map_2_full_alm map2alm X lmax = Inr alm"
    and re: "map2alm (fst (masked_parts X)) lmax = Inr (map Some re_arr)"
    and im: "map2alm (snd (masked_parts X)) lmax = Inr (map Some im_arr)"
    and m0re: "m0_real (getlm lmax) (map Some re_arr)"
    and m0im: "m0_real (getlm lmax) (map Some im_arr)"
    and back_re: "alm2map (map Some re_arr) (case nside of None \<Rightarrow> 32 | Some n \<Rightarrow> n) lmax' =
        Inr (map np_real X)"
    and back_im: "alm2map (map Some im_arr) (case nside of None \<Rightarrow> 32 | Some n \<Rightarrow> n) lmax' =
        Inr (map np_imag X)"
    and finite: "list_all np_isfinite X"
  shows "full_alm_2_cmplx_map alm2map alm nside lmax' = Inr X"
proof -
  from finite have "map (\<lambda>(r, i). np_cmplx r i) (zip (map np_real X) (map np_imag X)) = X"
  proof (induction X)
    case Nil
    then show ?case by simp
  next
    case (Cons p X)
    then have "is_fin (snd p)"
      by (simp add: np_isfinite_def)
    then have "np_cmplx (np_real p) (np_imag p) = p"
      by (cases "snd p") (simp_all add: np_cmplx_def np_real_def np_imag_def prod_eq_iff)
    with Cons show ?case
      by simp
  qed
  then show ?thesis
    by (simp add: full_alm_2_cmplx_map_def Let_def back_re back_im
        analysis_then_split [OF out re im m0re m0im])
qed


lemma round_trip_exact_example:
  "cmplx_map_2_full_alm example_map2alm [(Fin 1, Fin 2)] 1 =
     Inr [((0, 0), Some (Complex 1 2)), ((1, - 1), Some (Complex (- 4) (- 3))),
          ((1, 0), Some (Complex 2 4)), ((1, 1), Some (Complex 0 5))]
   \<and> full_alm_2_cmplx_map example_alm2map
        [((0, 0), Some (Complex 1 2)), ((1, - 1), Some (Complex (- 4) (- 3))),
         ((1, 0), Some (Complex 2 4)), ((1, 1), Some (Complex 0 5))] None None =
     Inr [(Fin 1, Fin 2)]"
proof -
  let ?X = "[(Fin 1, Fin 2)]"
  let ?A = "[((0 :: int, 0 :: int), Some (Complex 1 2)), ((1, - 1), Some (Complex (- 4) (- 3))),
          ((1, 0), Some (Complex 2 4)), ((1, 1), Some (Complex 0 5))]"
  have out: "cmplx_map_2_full_alm example_map2alm ?X 1 = Inr ?A"
    by code_simp
  have re: "example_map2alm (fst (masked_parts ?X)) 1 = Inr (map Some [1, 2, Complex 2 1])"
    by (simp add: example_map2alm_def masked_parts_def Let_def unmasked_sum_def np_isnan_def
        np_real_def getlm_1 complex_eq_iff)
  have im: "example_map2alm (snd (masked_parts ?X)) 1 = Inr (map Some [2, 4, Complex 4 2])"
    by (simp add: example_map2alm_def masked_parts_def Let_def unmasked_sum_def np_isnan_def
        np_imag_def getlm_1 complex_eq_iff)
  have m0: "m0_real (getlm 1) (map Some [1, 2, Complex 2 1])"
    "m0_real (getlm 1) (map Some [2, 4, Complex 4 2])"
    by (simp_all add: m0_real_def getlm_1)
  have synth: "example_alm2map (map Some [1, 2, Complex 2 1]) (case None of None \<Rightarrow> 32 | Some n \<Rightarrow> n) None
      = Inr (map np_real ?X)"
    "example_alm2map (map Some [2, 4, Complex 4 2]) (case None of None \<Rightarrow> 32 | Some n \<Rightarrow> n) None
      = Inr (map np_imag ?X)"
    by (simp_all add: example_alm2map_def np_real_def np_imag_def)
  have fin: "list_all np_isfinite ?X"
    by (simp add: np_isfinite_def)
  from round_trip_exact [where map2alm = example_map2alm and alm2map = example_alm2map and nside = None, OF out re im m0 synth fin] out show ?thesis
    by simp
qed

end
